theory Spec2Isabelle
  imports Main "HOL-Library.Multiset"
begin

section \<open>Python strings\<close>

text \<open>
  A Python \<open>str\<close> is a sequence of Unicode code points, and \<open>len\<close> counts code points.
  The classifier looks for Devanagari glyphs, which do not fit an 8-bit character, so a
  string is modelled as the list of its code points.
\<close>

type_synonym ustr = "nat list"

text \<open>The code points of an ASCII literal.\<close>

definition cps :: "string \<Rightarrow> ustr" where
  "cps s = map of_char s"

text \<open>
  \<open>str.isspace\<close> for one code point. Python's \<open>\s\<close> (on \<open>str\<close> patterns), \<open>str.strip()\<close>
  and \<open>str.split()\<close> all use this one set of code points.
\<close>

definition isspace :: "nat \<Rightarrow> bool" where
  "isspace c = ((9 \<le> c \<and> c \<le> 13) \<or> (28 \<le> c \<and> c \<le> 32) \<or> c = 133 \<or> c = 160 \<or> c = 5760
     \<or> (8192 \<le> c \<and> c \<le> 8202) \<or> c = 8232 \<or> c = 8233 \<or> c = 8239 \<or> c = 8287 \<or> c = 12288)"

text \<open>\<open>needle in haystack\<close> for strings: the needle occurs as a contiguous run.\<close>

fun startswith :: "'a list \<Rightarrow> 'a list \<Rightarrow> bool" where
  "startswith s [] = True"
| "startswith [] (p # ps) = False"
| "startswith (c # s) (p # ps) = (c = p \<and> startswith s ps)"

fun str_in :: "'a list \<Rightarrow> 'a list \<Rightarrow> bool" where
  "str_in t [] = (t = [])"
| "str_in t (c # s) = (startswith (c # s) t \<or> str_in t s)"

text \<open>\<open>re.sub(r'\s+', ' ', text)\<close>: every maximal run of whitespace becomes one space.\<close>

function re_sub_ws :: "ustr \<Rightarrow> ustr" where
  "re_sub_ws [] = []"
| "re_sub_ws (c # s) =
     (if isspace c then 32 # re_sub_ws (dropWhile isspace s) else c # re_sub_ws s)"
  by pat_completeness auto
termination
  by (relation "measure length") (auto simp: length_dropWhile_le less_Suc_eq_le)

text \<open>\<open>str.strip()\<close>: leading and trailing whitespace removed.\<close>

definition strip :: "ustr \<Rightarrow> ustr" where
  "strip s = rev (dropWhile isspace (rev (dropWhile isspace s)))"

text \<open>\<open>str.split()\<close> with no argument: the maximal runs of non-whitespace, in order.\<close>

function split :: "ustr \<Rightarrow> ustr list" where
  "split s =
     (case dropWhile isspace s of
        [] \<Rightarrow> []
      | c # r \<Rightarrow> (c # takeWhile (\<lambda>x. \<not> isspace x) r) # split (dropWhile (\<lambda>x. \<not> isspace x) r))"
  by pat_completeness auto
termination
proof (relation "measure length", goal_cases)
  case 1
  show ?case by simp
next
  case (2 s c r)
  have "length (dropWhile (\<lambda>x. \<not> isspace x) r) \<le> length r"
    by (rule length_dropWhile_le)
  moreover have "length (dropWhile isspace s) \<le> length s"
    by (rule length_dropWhile_le)
  ultimately show ?case using 2 by simp
qed

declare split.simps [simp del]

text \<open>A word: a non-empty string without whitespace.\<close>

definition word :: "ustr \<Rightarrow> bool" where
  "word w = (w \<noteq> [] \<and> (\<forall>x\<in>set w. \<not> isspace x))"

text \<open>\<open>sep.join(parts)\<close>.\<close>

fun join :: "'a list \<Rightarrow> 'a list list \<Rightarrow> 'a list" where
  "join sep [] = []"
| "join sep [x] = x"
| "join sep (x # y # xs) = x @ sep @ join sep (y # xs)"

section \<open>Text normalisation\<close>

text \<open>
  \<^verbatim>\<open>
  def clean_text(self, text):
      if not text:
          return ''
      return ' '.join(re.sub(r'\s+', ' ', text, flags=re.UNICODE).strip().split())
  \<close>
\<close>

definition clean_text :: "ustr \<Rightarrow> ustr" where
  "clean_text text =
     (if text = [] then [] else join [32] (split (strip (re_sub_ws text))))"


text \<open>
  \<open>str.lower()\<close> depends on the Unicode tables of the Python runtime, which are not part of
  the repository. Every function that lower-cases takes the lower-casing function as its
  first argument \<open>lw\<close>, and the theorems hold for each such function. \<open>ascii_lower\<close> is the
  instance used to run the model on concrete pages: it agrees with \<open>str.lower()\<close> on
  strings whose cased code points are all ASCII.
\<close>

definition ascii_lower :: "ustr \<Rightarrow> ustr" where
  "ascii_lower s = map (\<lambda>c. if 65 \<le> c \<and> c \<le> 90 then c + 32 else c) s"

section \<open>Parsed documents\<close>

text \<open>
  BeautifulSoup is an external library. A parsed document is modelled by what the scraper
  reads from it: an element is its tag name and its text (\<open>elem.name\<close>, \<open>elem.text\<close>), and
  a document is the record of the answers to the queries the code makes.
\<close>

record element =
  elem_name :: string
  elem_text :: ustr

datatype exn = RequestException | OtherException

datatype 'a outcome = Returns 'a | Raises exn

record document =
  doc_str :: ustr
  strings :: "ustr list"
  title_string :: "ustr option"
  meta_description_content :: "ustr option"
  links :: nat
  images :: nat
  main_elements :: "element list option"
  article_elements :: "element outcome list"
  article_all_tags :: "element outcome list"

text \<open>
  \<open>doc_str\<close> is \<open>str(soup)\<close>; \<open>strings\<close> are the string nodes of the document (texts,
  comments, the contents of script and style elements), in document order;
  \<open>title_string\<close> is \<open>soup.title.string\<close> when both exist;
  \<open>meta_description_content\<close> is the \<open>content\<close> attribute of the description meta tag
  (or of the \<open>og:description\<close> one) when there is one; \<open>links\<close> and \<open>images\<close> are
  \<open>len(soup.find_all('a'))\<close> and \<open>len(soup.find_all('img'))\<close>.
  \<open>main_elements\<close> is \<open>main_content.find_all(['p', 'div', 'span', 'h1', ..., 'h6', 'pre',
  'blockquote'])\<close> for the first content selector that matches, or for the body; it is
  \<open>None\<close> when the document has neither. \<open>article_elements\<close> and \<open>article_all_tags\<close> are
  the two element sequences the specialised extractor walks,
  \<open>article.find_all(['p', 'h1', ..., 'h6', 'div'])\<close> and \<open>article.find_all(True)\<close>; that
  walk runs under \<open>try\<close>, so each access is an outcome: the element, or an exception
  raised on reaching it.
\<close>

section \<open>The content classifier\<close>

record content =
  verses :: "ustr list"
  meanings :: "ustr list"
  paragraphs :: "ustr list"
  sections :: "(ustr \<times> ustr list) list"
  full_text :: "ustr option"

text \<open>
  The \<open>content\<close> dictionary. \<open>sections\<close> is a Python dict, which keeps its keys in
  insertion order: an association list with distinct keys. \<open>full_text\<close> is \<open>None\<close> while the
  key \<open>'full_text'\<close> is not set.
\<close>

definition empty_content :: content where
  "empty_content = \<lparr>verses = [], meanings = [], paragraphs = [], sections = [], full_text = None\<rparr>"

definition has_key :: "('k \<times> 'v) list \<Rightarrow> 'k \<Rightarrow> bool" where
  "has_key d k = (k \<in> set (map fst d))"

text \<open>\<open>d[k].append(x)\<close> for a key that is present.\<close>

fun dict_append :: "'k \<Rightarrow> 'a \<Rightarrow> ('k \<times> 'a list) list \<Rightarrow> ('k \<times> 'a list) list" where
  "dict_append k x [] = []"
| "dict_append k x ((k', xs) # d) =
     (if k' = k then (k', xs @ [x]) # d else (k', xs) # dict_append k x d)"

definition heading_names :: "string list" where
  "heading_names = [''h1'', ''h2'', ''h3'', ''h4'', ''h5'', ''h6'']"

definition devanagari_chars :: "ustr list" where
  "devanagari_chars =
     [[2405], [2404], [2384], [2344, 2350, 2307], [2358, 2367, 2357], [2361, 2352],
      [2352, 2366, 2350], [2325, 2371, 2359, 2381, 2339]]"

definition meaning_words :: "ustr list" where
  "meaning_words =
     [cps ''meaning'', [2309, 2352, 2381, 2341], [2349, 2366, 2357, 2366, 2352, 2381, 2341],
      cps ''explanation'', cps ''translation'']"

text \<open>
  The two tests of the rule chain:
  \<open>any(char in text for char in devanagari_chars) or len(text) > 50\<close> and
  \<open>any(word in text.lower() for word in ['meaning', ...])\<close>.
\<close>

definition is_verse :: "ustr list \<Rightarrow> ustr \<Rightarrow> bool" where
  "is_verse markers t = ((\<exists>char\<in>set markers. str_in char t) \<or> length t > 50)"

definition is_meaning :: "(ustr \<Rightarrow> ustr) \<Rightarrow> ustr \<Rightarrow> bool" where
  "is_meaning lw t = (\<exists>word\<in>set meaning_words. str_in word (lw t))"

text \<open>
  The three branches share one shape: if the text is not yet in the category list, append
  it there, and, when the current section is a key of \<open>sections\<close>, append the entry for
  the section too.
\<close>

definition to_section :: "ustr \<Rightarrow> ustr \<Rightarrow> content \<Rightarrow> content" where
  "to_section current_section entry c =
     (if has_key (sections c) current_section
      then c\<lparr>sections := dict_append current_section entry (sections c)\<rparr> else c)"

definition add_verse :: "ustr \<Rightarrow> ustr \<Rightarrow> content \<Rightarrow> content" where
  "add_verse current_section t c =
     (if t \<in> set (verses c) then c
      else to_section current_section (cps ''VERSE: '' @ t) (c\<lparr>verses := verses c @ [t]\<rparr>))"

definition add_meaning :: "ustr \<Rightarrow> ustr \<Rightarrow> content \<Rightarrow> content" where
  "add_meaning current_section t c =
     (if t \<in> set (meanings c) then c
      else to_section current_section (cps ''MEANING: '' @ t) (c\<lparr>meanings := meanings c @ [t]\<rparr>))"

definition add_paragraph :: "ustr \<Rightarrow> ustr \<Rightarrow> content \<Rightarrow> content" where
  "add_paragraph current_section t c =
     (if t \<in> set (paragraphs c) then c
      else to_section current_section t (c\<lparr>paragraphs := paragraphs c @ [t]\<rparr>))"

text \<open>
  One iteration of the loop \<open>for elem in elements\<close> of \<open>extract_article_content\<close> (the
  second definition in the class, which is the one Python keeps). The state is the
  \<open>content\<close> dictionary and \<open>current_section\<close>. \<open>markers\<close> is \<open>devanagari_chars\<close>; the
  primary pass of the specialised extractor runs the same body with a longer list.
\<close>

definition classify_element ::
  "(ustr \<Rightarrow> ustr) \<Rightarrow> ustr list \<Rightarrow> content \<times> ustr \<Rightarrow> element \<Rightarrow> content \<times> ustr" where
  "classify_element lw markers st elem =
     (case st of (c, current_section) \<Rightarrow>
        if strip (elem_text elem) = [] then st
        else let t = clean_text (elem_text elem) in
          if length t < 10 then st
          else if elem_name elem \<in> set heading_names then
            (if has_key (sections c) t then c else c\<lparr>sections := sections c @ [(t, [])]\<rparr>, t)
          else if is_verse markers t then (add_verse current_section t c, current_section)
          else if is_meaning lw t then (add_meaning current_section t c, current_section)
          else if length t > 30 then (add_paragraph current_section t c, current_section)
          else st)"

definition classify_elements ::
  "(ustr \<Rightarrow> ustr) \<Rightarrow> element list \<Rightarrow> content \<times> ustr" where
  "classify_elements lw elements =
     fold (\<lambda>elem st. classify_element lw devanagari_chars st elem) elements
       (empty_content, cps ''General'')"

text \<open>
  The text report:
  \<^verbatim>\<open>
  full_text_parts = []
  if content['verses']:
      full_text_parts.append('VERSES:')
      full_text_parts.extend(content['verses'])
  if content['meanings']:
      full_text_parts.append('\nMEANINGS:')
      full_text_parts.extend(content['meanings'])
  if content['sections']:
      full_text_parts.append('\nSECTIONS:')
      for section, items in content['sections'].items():
          full_text_parts.append(f'\n--- {section} ---')
          full_text_parts.extend(items)
  content['full_text'] = '\n\n'.join(full_text_parts)
  \<close>
\<close>

definition section_parts :: "ustr list \<Rightarrow> ustr \<times> ustr list \<Rightarrow> ustr list" where
  "section_parts parts kv =
     (case kv of (section, items) \<Rightarrow>
        (parts @ [[10] @ cps ''--- '' @ section @ cps '' ---'']) @ items)"

definition full_text_parts :: "content \<Rightarrow> ustr list" where
  "full_text_parts c =
     (let parts = [];
          parts = (if verses c \<noteq> [] then (parts @ [cps ''VERSES:'']) @ verses c else parts);
          parts = (if meanings c \<noteq> [] then (parts @ [[10] @ cps ''MEANINGS:'']) @ meanings c
                   else parts);
          parts = (if sections c \<noteq> []
                   then fold (\<lambda>kv parts. section_parts parts kv) (sections c)
                          (parts @ [[10] @ cps ''SECTIONS:''])
                   else parts)
      in parts)"

definition set_full_text :: "content \<Rightarrow> content" where
  "set_full_text c = c\<lparr>full_text := Some (join [10, 10] (full_text_parts c))\<rparr>"

subsection \<open>The specialised extractor\<close>

definition shiva_chars :: "ustr list" where
  "shiva_chars = devanagari_chars @
     [[2340, 2366, 2306, 2337, 2357], [2340, 2366, 2339, 2381, 2337, 2357]]"

text \<open>
  The walks of \<open>_extract_shiva_tandav_content\<close> run inside \<open>try\<close>. The dictionary is
  updated in place, so when an access raises, the walk stops with the state it has
  reached and the exception.
\<close>

fun shiva_walk ::
  "(ustr \<Rightarrow> ustr) \<Rightarrow> content \<times> ustr \<Rightarrow> element outcome list \<Rightarrow> (content \<times> ustr) \<times> exn option" where
  "shiva_walk lw st [] = (st, None)"
| "shiva_walk lw st (Raises e # rest) = (st, Some e)"
| "shiva_walk lw st (Returns elem # rest) =
     shiva_walk lw (classify_element lw shiva_chars st elem) rest"

text \<open>The second pass, over every tag, made when the first found no verse.\<close>

definition aggressive_element :: "content \<times> ustr \<Rightarrow> element \<Rightarrow> content \<times> ustr" where
  "aggressive_element st elem =
     (case st of (c, current_section) \<Rightarrow>
        if strip (elem_text elem) = [] then st
        else let t = clean_text (elem_text elem) in
          if length t > 50 \<and> (\<exists>char\<in>set [[2405], [2404], [2384]]. str_in char t)
          then (add_verse current_section t c, current_section)
          else st)"

fun aggressive_walk ::
  "content \<times> ustr \<Rightarrow> element outcome list \<Rightarrow> (content \<times> ustr) \<times> exn option" where
  "aggressive_walk st [] = (st, None)"
| "aggressive_walk st (Raises e # rest) = (st, Some e)"
| "aggressive_walk st (Returns elem # rest) = aggressive_walk (aggressive_element st elem) rest"

text \<open>
  \<open>except Exception\<close> logs the error; \<open>return content\<close> follows the \<open>try\<close> statement, so the
  dictionary is returned as it stands.
\<close>

definition extract_shiva_tandav_content :: "(ustr \<Rightarrow> ustr) \<Rightarrow> document \<Rightarrow> content" where
  "extract_shiva_tandav_content lw soup =
     (case shiva_walk lw (empty_content, cps ''Shiva Tandav Stotram'') (article_elements soup) of
        (st, Some e) \<Rightarrow> fst st
      | (st, None) \<Rightarrow>
          (case (if verses (fst st) = [] then aggressive_walk st (article_all_tags soup)
                 else (st, None)) of
             (st', Some e) \<Rightarrow> fst st'
           | (st', None) \<Rightarrow> set_full_text (fst st')))"

definition extract_article_content :: "(ustr \<Rightarrow> ustr) \<Rightarrow> document \<Rightarrow> content" where
  "extract_article_content lw soup =
     (if str_in (cps ''shiv-tandav-stotram'') (doc_str soup)
      then extract_shiva_tandav_content lw soup
      else (case main_elements soup of
              None \<Rightarrow> set_full_text empty_content
            | Some elements \<Rightarrow> set_full_text (fst (classify_elements lw elements))))"

section \<open>Fetching a page\<close>

text \<open>
  What a fetch delivers: the raw content (\<open>response.text\<close>, or \<open>page.content()\<close> for the
  browser) and the document \<open>BeautifulSoup(content, 'html.parser')\<close> makes of it.
\<close>

record page =
  html :: ustr
  soup :: document

text \<open>
  The scraper object after \<open>__init__\<close>: its flags, and its three collaborators. A
  collaborator is a stub: given the number of calls made to it before, it either returns
  a page or raises. \<open>RequestException\<close> stands for the exceptions of that class of the
  \<open>requests\<close> library, \<open>OtherException\<close> for any other subclass of \<open>Exception\<close> raised
  inside the \<open>try\<close> block of an attempt. \<open>page_ready\<close> says that \<open>self.page\<close> is set.

  An attempt of the browser calls \<open>time.sleep(2)\<close> between the navigation (\<open>page.goto\<close>, the
  waits, the scroll) and \<open>page.content()\<close>, so its outcome says on which side of that sleep
  an exception is raised: \<open>Navigation_raises\<close> before it, \<open>Content_raises\<close> after it (by
  \<open>page.content()\<close>, the write of the debug file or the parser), \<open>Rendered\<close> when the
  content is read and parsed.
\<close>

datatype rendering = Navigation_raises exn | Content_raises exn | Rendered page

record scraper =
  use_playwright :: bool
  page_ready :: bool
  use_scrapingbee :: bool
  scrapingbee_api_key :: "ustr option"
  browser :: "nat \<Rightarrow> rendering"
  session_get :: "nat \<Rightarrow> page outcome"
  scrapingbee :: "nat \<Rightarrow> page outcome"

text \<open>
  The effects a test double can observe: \<open>time.sleep(n)\<close>, a browser navigation, a GET
  with its User-Agent header, a call of the proxy service.
\<close>

datatype event = Sleep nat | Goto | Get ustr | ProxyGet

definition gotos :: "event list \<Rightarrow> nat" where
  "gotos tr = length (filter (\<lambda>ev. ev = Goto) tr)"

definition gets :: "event list \<Rightarrow> nat" where
  "gets tr = length (filter (\<lambda>ev. case ev of Get ua \<Rightarrow> True | _ \<Rightarrow> False) tr)"

definition proxy_gets :: "event list \<Rightarrow> nat" where
  "proxy_gets tr = length (filter (\<lambda>ev. ev = ProxyGet) tr)"

definition sleeps :: "event list \<Rightarrow> nat list" where
  "sleeps tr = concat (map (\<lambda>ev. case ev of Sleep n \<Rightarrow> [n] | _ \<Rightarrow> []) tr)"

definition user_agents :: "ustr list" where
  "user_agents =
     [cps ''Mozilla/5.0 (Windows NT 10.0; Win64; x64) AppleWebKit/537.36 (KHTML, like Gecko) Chrome/120.0.0.0 Safari/537.36'',
      cps ''Mozilla/5.0 (Windows NT 10.0; Win64; x64; rv:109.0) Gecko/20100101 Firefox/119.0'',
      cps ''Mozilla/5.0 (Macintosh; Intel Mac OS X 10_15_7) AppleWebKit/537.36 (KHTML, like Gecko) Chrome/120.0.0.0 Safari/537.36'',
      cps ''Mozilla/5.0 (Windows NT 10.0; Win64; x64) AppleWebKit/537.36 (KHTML, like Gecko) Chrome/119.0.0.0 Safari/537.36 Edg/119.0.0.0'',
      cps ''Mozilla/5.0 (Windows NT 10.0; Win64; x64) AppleWebKit/537.36 (KHTML, like Gecko) Chrome/120.0.0.0 Safari/537.36 OPR/106.0.0.0'']"

definition block_terms :: "ustr list" where
  "block_terms = [cps ''captcha'', cps ''access denied'', cps ''cloudflare'']"

text \<open>
  \<open>any(term in content.lower() for term in ['captcha', 'access denied', 'cloudflare'])\<close>
\<close>

definition has_block_term :: "(ustr \<Rightarrow> ustr) \<Rightarrow> ustr \<Rightarrow> bool" where
  "has_block_term lw content = (\<exists>term\<in>set block_terms. str_in term (lw content))"

text \<open>
  \<open>re.compile(r'(?i)captcha|access denied|cloudflare')\<close>. With \<open>re.IGNORECASE\<close> on a \<open>str\<close>
  pattern, a lower-case ASCII letter of the pattern matches itself and its capital; the
  letter \<open>s\<close> also matches LATIN SMALL LETTER LONG S (U+017F), and the letter \<open>i\<close> also
  matches the dotted capital I (U+0130) and the dotless small i (U+0131). No other
  character matches a letter of this pattern, and the space matches only itself.
\<close>

definition ignorecase_matches :: "nat \<Rightarrow> nat \<Rightarrow> bool" where
  "ignorecase_matches p x =
     (x = p \<or> (97 \<le> p \<and> p \<le> 122 \<and> x + 32 = p)
      \<or> (p = 105 \<and> (x = 304 \<or> x = 305)) \<or> (p = 115 \<and> x = 383))"

text \<open>The literal matches at the start of the string; it matches somewhere in the string.\<close>

fun matches_at :: "ustr \<Rightarrow> ustr \<Rightarrow> bool" where
  "matches_at s [] = True"
| "matches_at [] (p # ps) = False"
| "matches_at (x # s) (p # ps) = (ignorecase_matches p x \<and> matches_at s ps)"

fun search_literal :: "ustr \<Rightarrow> ustr \<Rightarrow> bool" where
  "search_literal t [] = (t = [])"
| "search_literal t (x # s) = (matches_at (x # s) t \<or> search_literal t s)"

text \<open>\<open>pattern.search(s)\<close> finds a match: one of the three alternatives occurs in \<open>s\<close>.\<close>

definition pattern_search :: "ustr \<Rightarrow> bool" where
  "pattern_search s = (\<exists>term\<in>set block_terms. search_literal term s)"

text \<open>
  \<open>soup.find(string=re.compile(r'(?i)captcha|access denied|cloudflare'))\<close>: the first string
  node in which the pattern is found, or \<open>None\<close>.
\<close>

definition find_block_term :: "document \<Rightarrow> ustr option" where
  "find_block_term d = find pattern_search (strings d)"

text \<open>
  A result is the value returned (\<open>None\<close> or the document) or the exception that leaves
  the function, together with the events so far.
\<close>

type_synonym fetched = "(exn + document option) \<times> event list"

text \<open>
  \<open>_get_page_with_requests\<close>: the loop \<open>for attempt in range(max_retries)\<close>, over the
  attempts that remain. Only \<open>requests.exceptions.RequestException\<close> is caught.
\<close>

fun requests_attempts ::
  "(ustr \<Rightarrow> ustr) \<Rightarrow> scraper \<Rightarrow> int \<Rightarrow> nat list \<Rightarrow> event list \<Rightarrow> fetched" where
  "requests_attempts lw self max_retries [] tr = (Inr None, tr)"
| "requests_attempts lw self max_retries (attempt # rest) tr =
     (let current_ua = user_agents ! (attempt mod length user_agents);
          tr1 = (if attempt > 0 then tr @ [Sleep (2 ^ attempt)] else tr);
          tr2 = tr1 @ [Get current_ua]
      in case session_get self (gets tr1) of
           Raises e \<Rightarrow>
             (if e = RequestException
              then (if int attempt = max_retries - 1 then (Inr None, tr2)
                    else requests_attempts lw self max_retries rest tr2)
              else (Inl e, tr2))
         | Returns response \<Rightarrow>
             if length (html response) < 1000
             then requests_attempts lw self max_retries rest tr2
             else if has_block_term lw (html response)
             then requests_attempts lw self max_retries rest tr2
             else if find_block_term (soup response) \<noteq> None
             then requests_attempts lw self max_retries rest tr2
             else (Inr (Some (soup response)), tr2))"

definition get_page_with_requests ::
  "(ustr \<Rightarrow> ustr) \<Rightarrow> scraper \<Rightarrow> int \<Rightarrow> event list \<Rightarrow> fetched" where
  "get_page_with_requests lw self max_retries tr =
     requests_attempts lw self max_retries [0..<nat max_retries] tr"

text \<open>
  \<open>_get_page_with_scrapingbee\<close>: every exception of an attempt is caught, and the loop goes
  on; after the loop the function returns \<open>None\<close>.
\<close>

fun scrapingbee_attempts ::
  "(ustr \<Rightarrow> ustr) \<Rightarrow> scraper \<Rightarrow> int \<Rightarrow> nat list \<Rightarrow> event list \<Rightarrow> fetched" where
  "scrapingbee_attempts lw self max_retries [] tr = (Inr None, tr)"
| "scrapingbee_attempts lw self max_retries (attempt # rest) tr =
     (let tr1 = (if attempt > 0 then tr @ [Sleep (2 ^ attempt)] else tr);
          tr2 = tr1 @ [ProxyGet]
      in case scrapingbee self (proxy_gets tr1) of
           Raises e \<Rightarrow> scrapingbee_attempts lw self max_retries rest tr2
         | Returns response \<Rightarrow>
             if length (html response) < 1000
             then scrapingbee_attempts lw self max_retries rest tr2
             else if has_block_term lw (html response)
             then scrapingbee_attempts lw self max_retries rest tr2
             else (Inr (Some (soup response)), tr2))"

text \<open>An API key is configured when it is neither \<open>None\<close> nor the empty string.\<close>

definition key_configured :: "scraper \<Rightarrow> bool" where
  "key_configured self =
     (case scrapingbee_api_key self of None \<Rightarrow> False | Some k \<Rightarrow> k \<noteq> [])"

definition get_page_with_scrapingbee ::
  "(ustr \<Rightarrow> ustr) \<Rightarrow> scraper \<Rightarrow> int \<Rightarrow> event list \<Rightarrow> fetched" where
  "get_page_with_scrapingbee lw self max_retries tr =
     (if \<not> use_scrapingbee self \<or> \<not> key_configured self then (Inr None, tr)
      else scrapingbee_attempts lw self max_retries [0..<nat max_retries] tr)"

text \<open>
  \<open>_get_page_with_playwright\<close> (the second definition in the class). An attempt that
  reaches \<open>page.content()\<close> has slept the two seconds that precede it. An exception on the
  last attempt hands over to \<open>_get_page_with_requests\<close> from inside the handler; an
  exception on an earlier attempt sleeps \<open>2 ** attempt\<close> seconds. A rejected page goes on to
  the next attempt with \<open>continue\<close>. When the loop ends without a \<open>return\<close>, the function
  returns \<open>None\<close>.
\<close>

fun playwright_attempts ::
  "(ustr \<Rightarrow> ustr) \<Rightarrow> scraper \<Rightarrow> int \<Rightarrow> nat list \<Rightarrow> event list \<Rightarrow> fetched" where
  "playwright_attempts lw self max_retries [] tr = (Inr None, tr)"
| "playwright_attempts lw self max_retries (attempt # rest) tr =
     (let tr1 = tr @ [Goto]
      in case browser self (gotos tr) of
           Navigation_raises e \<Rightarrow>
             (if int attempt = max_retries - 1
              then get_page_with_requests lw self max_retries tr1
              else playwright_attempts lw self max_retries rest (tr1 @ [Sleep (2 ^ attempt)]))
         | Content_raises e \<Rightarrow>
             (let tr2 = tr1 @ [Sleep 2]
              in if int attempt = max_retries - 1
                 then get_page_with_requests lw self max_retries tr2
                 else playwright_attempts lw self max_retries rest (tr2 @ [Sleep (2 ^ attempt)]))
         | Rendered rendered \<Rightarrow>
             (let tr2 = tr1 @ [Sleep 2]
              in if length (html rendered) < 1000
                 then playwright_attempts lw self max_retries rest tr2
                 else if has_block_term lw (html rendered)
                 then playwright_attempts lw self max_retries rest tr2
                 else if find_block_term (soup rendered) \<noteq> None
                 then playwright_attempts lw self max_retries rest tr2
                 else (Inr (Some (soup rendered)), tr2)))"

definition get_page_with_playwright ::
  "(ustr \<Rightarrow> ustr) \<Rightarrow> scraper \<Rightarrow> int \<Rightarrow> event list \<Rightarrow> fetched" where
  "get_page_with_playwright lw self max_retries tr =
     (if \<not> use_playwright self \<or> \<not> page_ready self then (Inr None, tr)
      else playwright_attempts lw self max_retries [0..<nat max_retries] tr)"

text \<open>
  \<^verbatim>\<open>
  def get_page(self, url, max_retries=3):
      if self.use_playwright and hasattr(self, 'page') and self.page:
          result = self._get_page_with_playwright(url, max_retries)
          if result:
              return result
      result = self._get_page_with_requests(url, max_retries)
      if result:
          return result
      if self.use_scrapingbee and self.scrapingbee_api_key:
          return self._get_page_with_scrapingbee(url, max_retries)
      return None
  \<close>
  A parsed document is always true in a condition. An exception that leaves an adapter
  leaves \<open>get_page\<close>, which has no handler.
\<close>

definition get_page :: "(ustr \<Rightarrow> ustr) \<Rightarrow> scraper \<Rightarrow> int \<Rightarrow> fetched" where
  "get_page lw self max_retries =
     (case (if use_playwright self \<and> page_ready self
            then get_page_with_playwright lw self max_retries []
            else (Inr None, [])) of
        (Inl e, tr) \<Rightarrow> (Inl e, tr)
      | (Inr (Some result), tr) \<Rightarrow> (Inr (Some result), tr)
      | (Inr None, tr) \<Rightarrow>
          (case get_page_with_requests lw self max_retries tr of
             (Inl e, tr') \<Rightarrow> (Inl e, tr')
           | (Inr (Some result), tr') \<Rightarrow> (Inr (Some result), tr')
           | (Inr None, tr') \<Rightarrow>
               if use_scrapingbee self \<and> key_configured self
               then get_page_with_scrapingbee lw self max_retries tr'
               else (Inr None, tr')))"

section \<open>The page report\<close>

text \<open>
  The dictionary \<open>scrape_example\<close> builds for a fetched document. \<open>page_data.update(content)\<close>
  copies the keys of the classifier's dictionary; they are kept as the field \<open>extracted\<close>.
  \<open>scraped_at\<close> is the wall-clock time and is left out.
\<close>

record page_data =
  url :: ustr
  title :: ustr
  extracted :: content
  meta_description :: "ustr option"
  num_links :: nat
  num_images :: nat
  num_paragraphs :: nat
  num_verses :: nat
  num_sections :: nat
  content_preview :: ustr

text \<open>\<open>content.get('full_text', '')\<close>\<close>

definition full_text_or_empty :: "content \<Rightarrow> ustr" where
  "full_text_or_empty c = (case full_text c of None \<Rightarrow> [] | Some t \<Rightarrow> t)"

text \<open>
  \<open>content.get('full_text', '')[:1000] + ('...' if len(content.get('full_text', '')) > 1000 else '')\<close>
\<close>

definition preview :: "content \<Rightarrow> ustr" where
  "preview c =
     take 1000 (full_text_or_empty c)
       @ (if length (full_text_or_empty c) > 1000 then cps ''...'' else [])"

definition build_page_data :: "(ustr \<Rightarrow> ustr) \<Rightarrow> ustr \<Rightarrow> document \<Rightarrow> page_data" where
  "build_page_data lw u d =
     (let t = (case title_string d of None \<Rightarrow> [] | Some s \<Rightarrow> clean_text s);
          c = extract_article_content lw d
      in \<lparr>url = u,
          title = (if t \<noteq> [] then t else cps ''No title found''),
          extracted = c,
          meta_description = map_option clean_text (meta_description_content d),
          num_links = links d,
          num_images = images d,
          num_paragraphs = length (paragraphs c),
          num_verses = length (verses c),
          num_sections = length (sections c),
          content_preview = preview c\<rparr>)"

text \<open>
  \<open>scrape_example\<close> calls \<open>get_page(url)\<close> with the default of three attempts, inside
  \<open>try ... except Exception\<close>: no document, or an exception, gives the empty list.
\<close>

definition scrape_example :: "(ustr \<Rightarrow> ustr) \<Rightarrow> scraper \<Rightarrow> ustr \<Rightarrow> page_data list" where
  "scrape_example lw self u =
     (case fst (get_page lw self 3) of
        Inl e \<Rightarrow> []
      | Inr None \<Rightarrow> []
      | Inr (Some d) \<Rightarrow> [build_page_data lw u d])"

section \<open>Notions used to state the properties\<close>

text \<open>The list without its repeated members: of equal members the first one stays.\<close>

definition first_occurrences :: "'a list \<Rightarrow> 'a list" where
  "first_occurrences xs = rev (remdups (rev xs))"

definition insert_new :: "'a \<Rightarrow> 'a list \<Rightarrow> 'a list" where
  "insert_new x acc = (if x \<in> set acc then acc else acc @ [x])"

definition is_heading :: "element \<Rightarrow> bool" where
  "is_heading elem = (elem_name elem \<in> set heading_names)"

text \<open>
  The normalised texts of the elements the rule chain sees, in document order: the
  elements that are not headings and whose normalised text has at least 10 characters.
\<close>

definition classified_texts :: "element list \<Rightarrow> ustr list" where
  "classified_texts elements =
     map (\<lambda>elem. clean_text (elem_text elem))
       (filter (\<lambda>elem. \<not> is_heading elem \<and> 10 \<le> length (clean_text (elem_text elem))) elements)"

text \<open>The normalised texts of the headings that open a section, in document order.\<close>

definition heading_texts :: "element list \<Rightarrow> ustr list" where
  "heading_texts elements =
     map (\<lambda>elem. clean_text (elem_text elem))
       (filter (\<lambda>elem. is_heading elem \<and> 10 \<le> length (clean_text (elem_text elem))) elements)"

text \<open>Every segment a content dictionary stores, category lists first.\<close>

definition segments :: "content \<Rightarrow> ustr list" where
  "segments c = verses c @ meanings c @ paragraphs c @ concat (map snd (sections c))"

text \<open>The entries the category lists can contribute to the section lists.\<close>

definition tagged_entries :: "content \<Rightarrow> ustr list" where
  "tagged_entries c =
     map (\<lambda>t. cps ''VERSE: '' @ t) (verses c) @ map (\<lambda>t. cps ''MEANING: '' @ t) (meanings c)
       @ paragraphs c"

text \<open>The loop of the classifier from any state, with any marker list.\<close>

definition walk ::
  "(ustr \<Rightarrow> ustr) \<Rightarrow> ustr list \<Rightarrow> content \<times> ustr \<Rightarrow> element list \<Rightarrow> content \<times> ustr" where
  "walk lw M st elements = fold (\<lambda>elem st. classify_element lw M st elem) elements st"

definition seen :: "element \<Rightarrow> bool" where
  "seen e = (\<not> is_heading e \<and> 10 \<le> length (clean_text (elem_text e)))"

text \<open>Every stored segment is left unchanged by \<open>clean_text\<close>.\<close>

definition all_clean :: "content \<Rightarrow> bool" where
  "all_clean c = (\<forall>x\<in>set (segments c). clean_text x = x)"

text \<open>The elements the generic loop walks: none when the document has no content root.\<close>

definition page_elements :: "document \<Rightarrow> element list" where
  "page_elements d = (case main_elements d of None \<Rightarrow> [] | Some elements \<Rightarrow> elements)"

text \<open>The page is not the one the specialised extractor is selected for.\<close>

definition generic_page :: "document \<Rightarrow> bool" where
  "generic_page d = (\<not> str_in (cps ''shiv-tandav-stotram'') (doc_str d))"

text \<open>Every section entry is accounted for by its own entry of a category list.\<close>

definition sections_within_categories :: "content \<Rightarrow> bool" where
  "sections_within_categories c =
     (mset (concat (map snd (sections c))) \<subseteq># mset (tagged_entries c))"

text \<open>
  The acceptance test of the HTTP and browser adapters, and the one of the proxy adapter,
  as the attempts apply them.
\<close>

definition accepted :: "(ustr \<Rightarrow> ustr) \<Rightarrow> page \<Rightarrow> bool" where
  "accepted lw p =
     (\<not> length (html p) < 1000 \<and> \<not> has_block_term lw (html p)
      \<and> find_block_term (soup p) = None)"

definition proxy_accepted :: "(ustr \<Rightarrow> ustr) \<Rightarrow> page \<Rightarrow> bool" where
  "proxy_accepted lw p = (\<not> length (html p) < 1000 \<and> \<not> has_block_term lw (html p))"

text \<open>
  An attempt fails, and the adapter goes on to the next attempt: the HTTP adapter on a
  \<open>RequestException\<close> or a rejected page, the other two on any exception or a rejected page.
\<close>

definition requests_fails :: "(ustr \<Rightarrow> ustr) \<Rightarrow> page outcome \<Rightarrow> bool" where
  "requests_fails lw r =
     (case r of Raises e \<Rightarrow> e = RequestException | Returns p \<Rightarrow> \<not> accepted lw p)"

definition browser_fails :: "(ustr \<Rightarrow> ustr) \<Rightarrow> rendering \<Rightarrow> bool" where
  "browser_fails lw r =
     (case r of Navigation_raises e \<Rightarrow> True | Content_raises e \<Rightarrow> True
      | Rendered p \<Rightarrow> \<not> accepted lw p)"

definition proxy_fails :: "(ustr \<Rightarrow> ustr) \<Rightarrow> page outcome \<Rightarrow> bool" where
  "proxy_fails lw r = (case r of Raises e \<Rightarrow> True | Returns p \<Rightarrow> \<not> proxy_accepted lw p)"

text \<open>The events of attempt \<open>k\<close> of the HTTP adapter and of the proxy adapter.\<close>

definition requests_events :: "nat \<Rightarrow> event list" where
  "requests_events k =
     (if 0 < k then [Sleep (2 ^ k)] else []) @ [Get (user_agents ! (k mod length user_agents))]"

definition proxy_events :: "nat \<Rightarrow> event list" where
  "proxy_events k = (if 0 < k then [Sleep (2 ^ k)] else []) @ [ProxyGet]"

text \<open>
  The events of attempt \<open>k\<close> of the browser adapter when the attempt fails and another one
  follows: the wait of \<open>2^k\<close> seconds comes after an exception only, and \<open>Sleep 2\<close> is the
  sleep inside an attempt that has reached \<open>page.content()\<close>.
\<close>

definition browser_events :: "nat \<Rightarrow> rendering \<Rightarrow> event list" where
  "browser_events k r =
     (case r of
        Navigation_raises e \<Rightarrow> [Goto, Sleep (2 ^ k)]
      | Content_raises e \<Rightarrow> [Goto, Sleep 2, Sleep (2 ^ k)]
      | Rendered p \<Rightarrow> [Goto, Sleep 2])"

text \<open>The second pass of the specialised extractor over elements that raise nothing.\<close>

definition aggressive_pass :: "content \<times> ustr \<Rightarrow> element list \<Rightarrow> content \<times> ustr" where
  "aggressive_pass st elements = fold (\<lambda>elem st. aggressive_element st elem) elements st"

text \<open>The state in which the specialised extractor starts.\<close>

definition shiva_start :: "content \<times> ustr" where
  "shiva_start = (empty_content, cps ''Shiva Tandav Stotram'')"

section \<open>Example pages\<close>

text \<open>
  A page with a heading of twelve characters, a verse that occurs twice, a meaning, a
  paragraph, a text too short for any category, and a heading of seven characters.
\<close>

definition example_elements :: "element list" where
  "example_elements =
     [\<lparr>elem_name = ''h2'', elem_text = cps ''Introduction''\<rparr>,
      \<lparr>elem_name = ''p'', elem_text = cps '' om namah  shivaya '' @ [2405]\<rparr>,
      \<lparr>elem_name = ''div'', elem_text = cps ''om namah shivaya '' @ [2405, 10]\<rparr>,
      \<lparr>elem_name = ''p'', elem_text = cps ''The Meaning of it''\<rparr>,
      \<lparr>elem_name = ''p'', elem_text = cps ''A plain sentence with over thirty chars.''\<rparr>,
      \<lparr>elem_name = ''span'', elem_text = cps ''short text!''\<rparr>,
      \<lparr>elem_name = ''h3'', elem_text = cps ''Meaning''\<rparr>,
      \<lparr>elem_name = ''p'', elem_text = cps ''Another plain sentence, thirty chars.''\<rparr>]"

definition example_document :: document where
  "example_document =
     \<lparr>doc_str = cps ''<html><body>...</body></html>'',
      strings = [],
      title_string = Some (cps ''Example''),
      meta_description_content = None,
      links = 0,
      images = 0,
      main_elements = Some example_elements,
      article_elements = [],
      article_all_tags = []\<rparr>"

text \<open>A page without headings that yields one paragraph and nothing else.\<close>

definition plain_elements :: "element list" where
  "plain_elements =
     [\<lparr>elem_name = ''p'', elem_text = cps ''A plain sentence with over thirty chars.''\<rparr>,
      \<lparr>elem_name = ''span'', elem_text = cps ''short text!''\<rparr>]"

definition plain_document :: document where
  "plain_document =
     \<lparr>doc_str = cps ''<html><body>...</body></html>'',
      strings = [],
      title_string = None,
      meta_description_content = None,
      links = 0,
      images = 0,
      main_elements = Some plain_elements,
      article_elements = [],
      article_all_tags = []\<rparr>"

text \<open>
  A page of a thousand \<open>x\<close> that every adapter accepts, and a scraper whose HTTP session
  and proxy each raise a \<open>RequestException\<close> twice before they deliver it, and whose
  browser fails to navigate twice before it renders it.
\<close>

definition good_page :: page where
  "good_page = \<lparr>html = replicate 1000 120, soup = plain_document\<rparr>"

definition flaky :: "nat \<Rightarrow> page outcome" where
  "flaky n = (if n < 2 then Raises RequestException else Returns good_page)"

definition flaky_browser :: "nat \<Rightarrow> rendering" where
  "flaky_browser n = (if n < 2 then Navigation_raises OtherException else Rendered good_page)"

definition flaky_scraper :: scraper where
  "flaky_scraper =
     \<lparr>use_playwright = True, page_ready = True, use_scrapingbee = True,
      scrapingbee_api_key = Some (cps ''key''),
      browser = flaky_browser, session_get = flaky, scrapingbee = flaky\<rparr>"

text \<open>
  A scraper whose browser renders an empty page twice, which the adapter rejects for its
  length, before it renders the page of a thousand \<open>x\<close>.
\<close>

definition short_page :: page where
  "short_page = \<lparr>html = [], soup = plain_document\<rparr>"

definition rejecting_browser :: "nat \<Rightarrow> rendering" where
  "rejecting_browser n = (if n < 2 then Rendered short_page else Rendered good_page)"

definition rejecting_scraper :: scraper where
  "rejecting_scraper =
     \<lparr>use_playwright = True, page_ready = True, use_scrapingbee = False,
      scrapingbee_api_key = None,
      browser = rejecting_browser, session_get = flaky, scrapingbee = flaky\<rparr>"

text \<open>
  A page whose markup spells the first letter of \<open>captcha\<close> as the character reference
  \<open>&#99;\<close>: the raw content does not contain the word, the parsed text does.
\<close>

definition entity_document :: document where
  "entity_document =
     \<lparr>doc_str = cps ''<p>captcha</p>'' @ replicate 1000 120,
      strings = [cps ''captcha'', replicate 1000 120],
      title_string = None,
      meta_description_content = None,
      links = 0,
      images = 0,
      main_elements = None,
      article_elements = [],
      article_all_tags = []\<rparr>"

definition entity_page :: page where
  "entity_page = \<lparr>html = cps ''<p>&#99;aptcha</p>'' @ replicate 1000 120, soup = entity_document\<rparr>"

definition entity_scraper :: scraper where
  "entity_scraper =
     \<lparr>use_playwright = True, page_ready = True, use_scrapingbee = True,
      scrapingbee_api_key = Some (cps ''key''),
      browser = (\<lambda>n. Rendered entity_page), session_get = (\<lambda>n. Returns entity_page),
      scrapingbee = (\<lambda>n. Returns entity_page)\<rparr>"

text \<open>
  A scraper without browser and without proxy whose HTTP attempt raises an exception that
  is not a \<open>RequestException\<close>.
\<close>

definition broken_scraper :: scraper where
  "broken_scraper =
     \<lparr>use_playwright = False, page_ready = False, use_scrapingbee = False,
      scrapingbee_api_key = None,
      browser = (\<lambda>n. Navigation_raises OtherException), session_get = (\<lambda>n. Raises OtherException),
      scrapingbee = (\<lambda>n. Raises OtherException)\<rparr>"

text \<open>
  A page of the template the specialised extractor is selected for, on which the access to
  the second element raises.
\<close>

definition faulty_document :: document where
  "faulty_document =
     \<lparr>doc_str = cps ''<a href=shiv-tandav-stotram>'',
      strings = [],
      title_string = None,
      meta_description_content = None,
      links = 1,
      images = 0,
      main_elements = None,
      article_elements =
        [Returns \<lparr>elem_name = ''p'', elem_text = cps '' om namah  shivaya '' @ [2405]\<rparr>,
         Raises OtherException],
      article_all_tags = []\<rparr>"

text \<open>
  A page with one verse of \<open>n\<close> letters \<open>a\<close>, and a scraper without browser whose HTTP session
  delivers it at once.
\<close>

definition long_document :: "nat \<Rightarrow> document" where
  "long_document n =
     \<lparr>doc_str = cps ''<html><body>...</body></html>'',
      strings = [],
      title_string = None,
      meta_description_content = None,
      links = 0,
      images = 0,
      main_elements = Some [\<lparr>elem_name = ''p'', elem_text = replicate n 97\<rparr>],
      article_elements = [],
      article_all_tags = []\<rparr>"

definition long_scraper :: "nat \<Rightarrow> scraper" where
  "long_scraper n =
     \<lparr>use_playwright = False, page_ready = False, use_scrapingbee = False,
      scrapingbee_api_key = None,
      browser = (\<lambda>k. Navigation_raises OtherException),
      session_get = (\<lambda>k. Returns \<lparr>html = replicate 1000 120, soup = long_document n\<rparr>),
      scrapingbee = (\<lambda>k. Raises OtherException)\<rparr>"
section \<open>Properties of the text normalisation\<close>

lemma split_Nil: "split [] = []"
  by (simp add: split.simps)

lemma split_space_Cons: "isspace c \<Longrightarrow> split (c # s) = split s"
  by (simp add: split.simps[of "c # s"] split.simps[of s])

lemma split_nonspace_Cons:
  "\<not> isspace c \<Longrightarrow> split (c # s) =
     (c # takeWhile (\<lambda>x. \<not> isspace x) s) # split (dropWhile (\<lambda>x. \<not> isspace x) s)"
  by (simp add: split.simps[of "c # s"])

lemma split_all_space: "dropWhile isspace s = [] \<Longrightarrow> split s = []"
  by (subst split.simps) (simp del: dropWhile_eq_Nil_conv)

lemma split_dropWhile: "split (dropWhile isspace s) = split s"
  by (induction s) (simp_all add: split_space_Cons)

lemma split_append_spaces: "\<forall>x\<in>set ws. isspace x \<Longrightarrow> split (s @ ws) = split s"
proof (induction s rule: split.induct)
  case (1 s)
  show ?case
  proof (cases "dropWhile isspace s")
    case Nil
    then have all: "\<forall>x\<in>set s. isspace x" by (simp add: dropWhile_eq_Nil_conv)
    have a: "split s = []" using Nil by (rule split_all_space)
    have "dropWhile isspace (s @ ws) = []" using all 1(2) by auto
    then have "split (s @ ws) = []" by (rule split_all_space)
    with a show ?thesis by simp
  next
    case (Cons c r)
    then have nsp: "\<not> isspace c" by (metis hd_dropWhile list.sel(1) list.distinct(1))
    obtain p where s: "s = p @ c # r" and p: "\<forall>x\<in>set p. isspace x"
      by (metis Cons takeWhile_dropWhile_id set_takeWhileD)
    have d1: "dropWhile isspace (s @ ws) = c # (r @ ws)"
      using s p nsp by (simp add: dropWhile_append3)
    show ?thesis
    proof (cases "\<forall>x\<in>set r. \<not> isspace x")
      case True
      have t1: "takeWhile (\<lambda>x. \<not> isspace x) (r @ ws) = r @ takeWhile (\<lambda>x. \<not> isspace x) ws" using True by (simp add: takeWhile_append2)
      have t2: "takeWhile (\<lambda>x. \<not> isspace x) ws = []" using 1(2) by (cases ws) auto
      have t3: "dropWhile (\<lambda>x. \<not> isspace x) (r @ ws) = ws" using True t2
        by (metis (no_types, lifting) append_Nil dropWhile_append2 takeWhile_dropWhile_id )
      have t4: "dropWhile (\<lambda>x. \<not> isspace x) r = []" using True by simp
      have t5: "takeWhile (\<lambda>x. \<not> isspace x) r = r" using True by simp
      have "split ws = []" using 1(2) by (intro split_all_space) simp
      then show ?thesis 
        by (simp add: split.simps[of "s @ ws"] split.simps[of s] d1 Cons t1 t2 t3 t4 t5 split_Nil)
    next
      case False
      then obtain x where "x \<in> set r" "isspace x" by auto
      then have t1: "takeWhile (\<lambda>x. \<not> isspace x) (r @ ws) = takeWhile (\<lambda>x. \<not> isspace x) r" 
        by (simp add: takeWhile_append1)
      have t3: "dropWhile (\<lambda>x. \<not> isspace x) (r @ ws) = dropWhile (\<lambda>x. \<not> isspace x) r @ ws"
        using \<open>x \<in> set r\<close> \<open>isspace x\<close> by (simp add: dropWhile_append1)
      have "split (dropWhile (\<lambda>x. \<not> isspace x) r @ ws) = split (dropWhile (\<lambda>x. \<not> isspace x) r)"
        using 1(1)[OF Cons] 1(2) by simp
      then show ?thesis
        by (simp add: split.simps[of "s @ ws"] split.simps[of s] d1 Cons t1 t3)
    qed
  qed
qed

lemma split_strip: "split (strip s) = split s"
proof -
  have "split (strip s) = split (rev (dropWhile isspace (rev (dropWhile isspace s))))"
    by (simp add: strip_def)
  let ?t = "dropWhile isspace s"
  have "?t = rev (rev ?t)" by simp
  also have "rev ?t = takeWhile isspace (rev ?t) @ dropWhile isspace (rev ?t)" by simp
  finally have "?t = rev (dropWhile isspace (rev ?t)) @ rev (takeWhile isspace (rev ?t))"
    by (metis rev_append rev_rev_ident)
  moreover have "\<forall>x\<in>set (rev (takeWhile isspace (rev ?t))). isspace x"
    by (auto dest: set_takeWhileD)
  ultimately have "split ?t = split (rev (dropWhile isspace (rev ?t)))"
    by (metis split_append_spaces)
  then show ?thesis by (simp add: strip_def split_dropWhile)
qed

lemma re_sub_ws_Nil_iff: "re_sub_ws s = [] \<longleftrightarrow> s = []"
  by (cases s) auto

lemma isspace_32: "isspace 32"
  by (simp add: isspace_def)

lemma hd_re_sub_ws: "s \<noteq> [] \<Longrightarrow> isspace (hd (re_sub_ws s)) = isspace (hd s)"
  by (cases s) (auto simp: isspace_32)

lemma split_re_sub_ws: "split (re_sub_ws s) = split s"
proof (induction s rule: re_sub_ws.induct)
  case 1
  show ?case by simp
next
  case (2 c s)
  show ?case
  proof (cases "isspace c")
    case True
    then show ?thesis using 2(1) by (simp add: split_space_Cons isspace_32 split_dropWhile)
  next
    case False
    note ih = 2(2)[OF False]
    show ?thesis
    proof (cases s)
      case Nil
      then show ?thesis using False by simp
    next
      case (Cons d r)
      show ?thesis
      proof (cases "isspace d")
        case True
        have "split (c # re_sub_ws s) = [c] # split (re_sub_ws (dropWhile isspace r))"
          using False True Cons by (simp add: split_nonspace_Cons isspace_32 split_space_Cons)
        moreover have "split (c # s) = [c] # split r"
          using False True Cons by (simp add: split_nonspace_Cons split_space_Cons)
        moreover have "split (re_sub_ws (dropWhile isspace r)) = split r"
          using ih True Cons by (simp add: split_space_Cons isspace_32)
        ultimately show ?thesis using False by simp
      next
        case nd: False
        have a: "re_sub_ws s = d # re_sub_ws r" using Cons nd by simp
        have "split (d # re_sub_ws r) = split (d # r)" using ih a Cons by simp
        then have "takeWhile (\<lambda>x. \<not> isspace x) (re_sub_ws r) = takeWhile (\<lambda>x. \<not> isspace x) r
            \<and> split (dropWhile (\<lambda>x. \<not> isspace x) (re_sub_ws r)) = split (dropWhile (\<lambda>x. \<not> isspace x) r)"
          using nd by (simp add: split_nonspace_Cons)
        then show ?thesis using False nd a Cons by (simp add: split_nonspace_Cons)
      qed
    qed
  qed
qed

lemma split_words: "\<forall>w\<in>set (split s). word w"
proof (induction s rule: split.induct)
  case (1 s)
  show ?case
  proof (cases "dropWhile isspace s")
    case Nil
    then show ?thesis by (simp add: split_all_space del: dropWhile_eq_Nil_conv)
  next
    case (Cons c r)
    then have nsp: "\<not> isspace c" by (metis hd_dropWhile list.sel(1) list.distinct(1))
    have "word (c # takeWhile (\<lambda>x. \<not> isspace x) r)"
      using nsp by (auto simp: word_def dest: set_takeWhileD)
    then show ?thesis using 1[OF Cons] Cons by (simp add: split.simps[of s])
  qed
qed

lemma split_word_append:
  assumes "word w" "r = [] \<or> isspace (hd r)"
  shows "split (w @ r) = w # split r"
proof -
  obtain c w' where w: "w = c # w'" using assms(1) by (cases w) (auto simp: word_def)
  have c: "\<not> isspace c" and w': "\<forall>x\<in>set w'. \<not> isspace x" using assms(1) w by (auto simp: word_def)
  have t: "takeWhile (\<lambda>x. \<not> isspace x) (w' @ r) = w'"
    using w' assms(2) by (cases r) (auto simp: takeWhile_append2)
  have d: "dropWhile (\<lambda>x. \<not> isspace x) (w' @ r) = r"
    using w' assms(2) by (cases r) (auto simp: dropWhile_append2)
  show ?thesis using c by (simp add: w split_nonspace_Cons t d)
qed

lemma split_join: "\<forall>w\<in>set ws. word w \<Longrightarrow> split (join [32] ws) = ws"
proof (induction ws)
  case Nil
  show ?case by (simp add: split_Nil)
next
  case (Cons w ws)
  then have w: "word w" by simp
  show ?case
  proof (cases ws)
    case Nil
    from split_word_append[OF w, of "[]"] show ?thesis by (simp add: Nil split_Nil)
  next
    case (Cons y ys)
    have "split (w @ 32 # join [32] ws) = w # split (32 # join [32] ws)"
      using w by (intro split_word_append) (auto simp: isspace_32)
    then show ?thesis using Cons.IH Cons.prems Cons by (simp add: split_space_Cons isspace_32)
  qed
qed

lemma clean_text_eq: "clean_text s = join [32] (split s)"
  by (simp add: clean_text_def split_strip split_re_sub_ws split_Nil)


section \<open>Properties of the classifier loop\<close>

lemma walk_Nil [simp]: "walk lw M st [] = st" by (simp add: walk_def)
lemma walk_Cons [simp]: "walk lw M st (e # es) = walk lw M (classify_element lw M st e) es"
  by (simp add: walk_def)

lemma classify_elements_walk:
  "classify_elements lw elements = walk lw devanagari_chars (empty_content, cps ''General'') elements"
  by (simp add: classify_elements_def walk_def)

lemma strip_Nil_clean: "strip s = [] \<Longrightarrow> clean_text s = []"
  using split_strip[of s] by (simp add: clean_text_eq split_Nil)

lemma to_section_fields [simp]:
  "verses (to_section cur x c) = verses c"
  "meanings (to_section cur x c) = meanings c"
  "paragraphs (to_section cur x c) = paragraphs c"
  "full_text (to_section cur x c) = full_text c"
  by (simp_all add: to_section_def)

lemma add_verse_fields [simp]:
  "verses (add_verse cur t c) = insert_new t (verses c)"
  "meanings (add_verse cur t c) = meanings c"
  "paragraphs (add_verse cur t c) = paragraphs c"
  by (simp_all add: add_verse_def insert_new_def)

lemma add_meaning_fields [simp]:
  "verses (add_meaning cur t c) = verses c"
  "meanings (add_meaning cur t c) = insert_new t (meanings c)"
  "paragraphs (add_meaning cur t c) = paragraphs c"
  by (simp_all add: add_meaning_def insert_new_def)

lemma add_paragraph_fields [simp]:
  "verses (add_paragraph cur t c) = verses c"
  "meanings (add_paragraph cur t c) = meanings c"
  "paragraphs (add_paragraph cur t c) = insert_new t (paragraphs c)"
  by (simp_all add: add_paragraph_def insert_new_def)

text \<open>What one element does to each category list.\<close>

lemma step_verses:
  "verses (fst (classify_element lw M st e)) =
     (if seen e \<and> is_verse M (clean_text (elem_text e))
      then insert_new (clean_text (elem_text e)) (verses (fst st)) else verses (fst st))"
  by (cases st) (auto simp: classify_element_def Let_def seen_def is_heading_def strip_Nil_clean)

lemma step_meanings:
  "meanings (fst (classify_element lw M st e)) =
     (if seen e \<and> \<not> is_verse M (clean_text (elem_text e)) \<and> is_meaning lw (clean_text (elem_text e))
      then insert_new (clean_text (elem_text e)) (meanings (fst st)) else meanings (fst st))"
  by (cases st) (auto simp: classify_element_def Let_def seen_def is_heading_def strip_Nil_clean)

lemma step_paragraphs:
  "paragraphs (fst (classify_element lw M st e)) =
     (if seen e \<and> \<not> is_verse M (clean_text (elem_text e)) \<and> \<not> is_meaning lw (clean_text (elem_text e))
         \<and> 30 < length (clean_text (elem_text e))
      then insert_new (clean_text (elem_text e)) (paragraphs (fst st)) else paragraphs (fst st))"
  by (cases st) (auto simp: classify_element_def Let_def seen_def is_heading_def strip_Nil_clean)

lemma remdups_snoc: "remdups (zs @ [x]) = remdups (filter (\<lambda>y. y \<noteq> x) zs) @ [x]"
  by (induction zs) auto

lemma first_occurrences_Cons:
  "first_occurrences (x # ys) = x # first_occurrences (filter (\<lambda>y. y \<noteq> x) ys)"
  by (simp add: first_occurrences_def remdups_snoc rev_filter)

lemma first_occurrences_Nil [simp]: "first_occurrences [] = []"
  by (simp add: first_occurrences_def)

lemma fold_insert_new:
  "fold insert_new xs acc = acc @ first_occurrences (filter (\<lambda>x. x \<notin> set acc) xs)"
proof (induction xs arbitrary: acc)
  case Nil
  show ?case by simp
next
  case (Cons x xs)
  show ?case
  proof (cases "x \<in> set acc")
    case True
    then show ?thesis using Cons[of acc] by (simp add: insert_new_def)
  next
    case False
    have "filter (\<lambda>y. y \<notin> set (acc @ [x])) xs = filter (\<lambda>y. y \<noteq> x) (filter (\<lambda>y. y \<notin> set acc) xs)"
      by (induction xs) auto
    then show ?thesis using False Cons[of "acc @ [x]"]
      by (simp add: insert_new_def first_occurrences_Cons)
  qed
qed

lemma walk_verses:
  "verses (fst (walk lw M st es)) =
     fold insert_new [t \<leftarrow> map (\<lambda>e. clean_text (elem_text e)) (filter seen es). is_verse M t] (verses (fst st))"
  by (induction es arbitrary: st) (simp_all add: step_verses)

lemma walk_meanings:
  "meanings (fst (walk lw M st es)) =
     fold insert_new [t \<leftarrow> map (\<lambda>e. clean_text (elem_text e)) (filter seen es). \<not> is_verse M t \<and> is_meaning lw t] (meanings (fst st))"
  by (induction es arbitrary: st) (simp_all add: step_meanings)

lemma walk_paragraphs:
  "paragraphs (fst (walk lw M st es)) =
     fold insert_new [t \<leftarrow> map (\<lambda>e. clean_text (elem_text e)) (filter seen es).
        \<not> is_verse M t \<and> \<not> is_meaning lw t \<and> 30 < length t] (paragraphs (fst st))"
  by (induction es arbitrary: st) (simp_all add: step_paragraphs)

lemma classified_texts_seen:
  "classified_texts es = map (\<lambda>e. clean_text (elem_text e)) (filter seen es)"
  by (simp add: classified_texts_def seen_def cong: filter_cong)

lemma classify_verses:
  "verses (fst (classify_elements lw es)) =
     first_occurrences [t \<leftarrow> classified_texts es. is_verse devanagari_chars t]"
  by (simp add: classify_elements_walk walk_verses fold_insert_new empty_content_def classified_texts_seen)

lemma classify_meanings:
  "meanings (fst (classify_elements lw es)) =
     first_occurrences [t \<leftarrow> classified_texts es. \<not> is_verse devanagari_chars t \<and> is_meaning lw t]"
  by (simp add: classify_elements_walk walk_meanings fold_insert_new empty_content_def classified_texts_seen)

lemma classify_paragraphs:
  "paragraphs (fst (classify_elements lw es)) =
     first_occurrences [t \<leftarrow> classified_texts es.
        \<not> is_verse devanagari_chars t \<and> \<not> is_meaning lw t \<and> 30 < length t]"
  by (simp add: classify_elements_walk walk_paragraphs fold_insert_new empty_content_def classified_texts_seen)

lemma distinct_first_occurrences [simp]: "distinct (first_occurrences xs)"
  by (simp add: first_occurrences_def)

lemma set_first_occurrences [simp]: "set (first_occurrences xs) = set xs"
  by (simp add: first_occurrences_def)

text \<open>The keys of the section dictionary, and the entries of its lists.\<close>

lemma map_fst_dict_append [simp]: "map fst (dict_append k x d) = map fst d"
  by (induction d) auto

lemma mset_dict_append:
  "has_key d k \<Longrightarrow>
   mset (concat (map snd (dict_append k x d))) = mset (concat (map snd d)) + {#x#}"
proof (induction d)
  case Nil
  then show ?case by (simp add: has_key_def)
next
  case (Cons kv d)
  obtain k' xs where kv: "kv = (k', xs)" by (cases kv)
  show ?case
  proof (cases "k' = k")
    case True
    then show ?thesis by (simp add: kv)
  next
    case False
    then have "has_key d k" using Cons.prems by (auto simp: has_key_def kv)
    then show ?thesis using Cons.IH False by (simp add: kv)
  qed
qed

lemma to_section_keys [simp]: "map fst (sections (to_section cur x c)) = map fst (sections c)"
  by (simp add: to_section_def)

lemma step_keys:
  "map fst (sections (fst (classify_element lw M st e))) =
     (if is_heading e \<and> 10 \<le> length (clean_text (elem_text e))
      then insert_new (clean_text (elem_text e)) (map fst (sections (fst st)))
      else map fst (sections (fst st)))"
  by (cases st)
    (auto simp: classify_element_def Let_def is_heading_def strip_Nil_clean insert_new_def
       has_key_def add_verse_def add_meaning_def add_paragraph_def)

lemma walk_keys:
  "map fst (sections (fst (walk lw M st es))) =
     fold insert_new (heading_texts es) (map fst (sections (fst st)))"
  by (induction es arbitrary: st) (simp_all add: step_keys heading_texts_def)

lemma classify_keys:
  "map fst (sections (fst (classify_elements lw es))) = first_occurrences (heading_texts es)"
  by (simp add: classify_elements_walk walk_keys fold_insert_new empty_content_def)

section \<open>Stored segments are normalised\<close>

lemma cps_verse: "cps ''VERSE: '' = cps ''VERSE:'' @ [32]"
  by (simp add: cps_def)

lemma cps_meaning: "cps ''MEANING: '' = cps ''MEANING:'' @ [32]"
  by (simp add: cps_def)

lemma word_verse: "word (cps ''VERSE:'')"
  by (simp add: word_def cps_def isspace_def)

lemma word_meaning: "word (cps ''MEANING:'')"
  by (simp add: word_def cps_def isspace_def)

lemma clean_text_tagged:
  assumes "word w" "clean_text t = t" "t \<noteq> []"
  shows "clean_text (w @ [32] @ t) = w @ [32] @ t"
proof -
  have t: "t = join [32] (split t)" using assms(2) by (simp add: clean_text_eq)
  then have ne: "split t \<noteq> []" using assms(3) by auto
  have "split (w @ 32 # t) = w # split (32 # t)"
    using assms(1) by (intro split_word_append) (simp_all add: isspace_32)
  then have "split (w @ 32 # t) = w # split t" by (simp add: split_space_Cons isspace_32)
  moreover obtain y ys where "split t = y # ys" using ne by (cases "split t") auto
  ultimately have "join [32] (split (w @ 32 # t)) = w @ [32] @ join [32] (split t)" by simp
  then show ?thesis using t by (simp add: clean_text_eq)
qed

lemma has_key_set_dict_append:
  "has_key d k \<Longrightarrow> set (concat (map snd (dict_append k x d))) = insert x (set (concat (map snd d)))"
  using mset_dict_append[of d k x] by (metis set_mset_mset set_mset_add_mset_insert union_mset_add_mset_right add.right_neutral)

lemma segments_to_section:
  "set (segments (to_section cur x c)) \<subseteq> insert x (set (segments c))"
  using has_key_set_dict_append[of "sections c" cur x]
  by (auto simp: to_section_def segments_def)

lemma segments_add_verse:
  "set (segments (add_verse cur t c)) \<subseteq> {t, cps ''VERSE: '' @ t} \<union> set (segments c)"
proof (cases "t \<in> set (verses c)")
  case True
  then show ?thesis by (auto simp: add_verse_def)
next
  case False
  have "set (segments (c\<lparr>verses := verses c @ [t]\<rparr>)) = insert t (set (segments c))"
    by (simp add: segments_def)
  then show ?thesis
    using False segments_to_section[of cur "cps ''VERSE: '' @ t" "c\<lparr>verses := verses c @ [t]\<rparr>"]
    by (auto simp: add_verse_def)
qed

lemma segments_add_meaning:
  "set (segments (add_meaning cur t c)) \<subseteq> {t, cps ''MEANING: '' @ t} \<union> set (segments c)"
proof (cases "t \<in> set (meanings c)")
  case True
  then show ?thesis by (auto simp: add_meaning_def)
next
  case False
  have "set (segments (c\<lparr>meanings := meanings c @ [t]\<rparr>)) = insert t (set (segments c))"
    by (simp add: segments_def)
  then show ?thesis
    using False segments_to_section[of cur "cps ''MEANING: '' @ t" "c\<lparr>meanings := meanings c @ [t]\<rparr>"]
    by (auto simp: add_meaning_def)
qed

lemma segments_add_paragraph:
  "set (segments (add_paragraph cur t c)) \<subseteq> {t} \<union> set (segments c)"
proof (cases "t \<in> set (paragraphs c)")
  case True
  then show ?thesis by (auto simp: add_paragraph_def)
next
  case False
  have "set (segments (c\<lparr>paragraphs := paragraphs c @ [t]\<rparr>)) = insert t (set (segments c))"
    by (simp add: segments_def)
  then show ?thesis
    using False segments_to_section[of cur t "c\<lparr>paragraphs := paragraphs c @ [t]\<rparr>"]
    by (auto simp: add_paragraph_def)
qed

lemma all_clean_add_verse:
  assumes "all_clean c" "clean_text t = t" "t \<noteq> []"
  shows "all_clean (add_verse cur t c)"
proof -
  have "clean_text (cps ''VERSE: '' @ t) = cps ''VERSE: '' @ t"
    using clean_text_tagged[OF word_verse assms(2,3)] by (simp add: cps_verse)
  then show ?thesis using assms segments_add_verse[of cur t c] by (auto simp: all_clean_def)
qed

lemma all_clean_add_meaning:
  assumes "all_clean c" "clean_text t = t" "t \<noteq> []"
  shows "all_clean (add_meaning cur t c)"
proof -
  have "clean_text (cps ''MEANING: '' @ t) = cps ''MEANING: '' @ t"
    using clean_text_tagged[OF word_meaning assms(2,3)] by (simp add: cps_meaning)
  then show ?thesis using assms segments_add_meaning[of cur t c] by (auto simp: all_clean_def)
qed

lemma all_clean_add_paragraph:
  assumes "all_clean c" "clean_text t = t"
  shows "all_clean (add_paragraph cur t c)"
  using assms segments_add_paragraph[of cur t c] by (auto simp: all_clean_def)

lemma clean_text_idem: "clean_text (clean_text s) = clean_text s"
  by (simp add: clean_text_eq split_join split_words)

lemma all_clean_step:
  assumes "all_clean (fst st)"
  shows "all_clean (fst (classify_element lw M st e))"
proof -
  obtain c cur where st: "st = (c, cur)" by (cases st)
  let ?t = "clean_text (elem_text e)"
  have c: "all_clean c" using assms st by simp
  have h: "all_clean (c\<lparr>sections := sections c @ [(?t, [])]\<rparr>)"
    using c by (simp add: all_clean_def segments_def)
  have ne: "\<not> length ?t < 10 \<Longrightarrow> ?t \<noteq> []" by auto
  show ?thesis
    using c h ne all_clean_add_verse[of c ?t cur] all_clean_add_meaning[of c ?t cur]
      all_clean_add_paragraph[of c ?t cur]
    by (simp add: st classify_element_def Let_def clean_text_idem)
qed

lemma all_clean_walk: "all_clean (fst st) \<Longrightarrow> all_clean (fst (walk lw M st es))"
  by (induction es arbitrary: st) (simp_all add: all_clean_step)

lemma all_clean_shiva_walk:
  "all_clean (fst st) \<Longrightarrow> all_clean (fst (fst (shiva_walk lw st es)))"
  by (induction lw st es rule: shiva_walk.induct) (simp_all add: all_clean_step)

lemma all_clean_aggressive_element:
  assumes "all_clean (fst st)"
  shows "all_clean (fst (aggressive_element st e))"
proof -
  obtain c cur where st: "st = (c, cur)" by (cases st)
  let ?t = "clean_text (elem_text e)"
  have c: "all_clean c" using assms st by simp
  have ne: "50 < length ?t \<Longrightarrow> ?t \<noteq> []" by auto
  show ?thesis
    using c ne all_clean_add_verse[of c ?t cur]
    by (simp add: st aggressive_element_def Let_def clean_text_idem)
qed

lemma all_clean_aggressive_walk:
  "all_clean (fst st) \<Longrightarrow> all_clean (fst (fst (aggressive_walk st es)))"
  by (induction st es rule: aggressive_walk.induct) (simp_all add: all_clean_aggressive_element)

lemma all_clean_set_full_text: "all_clean c \<Longrightarrow> all_clean (set_full_text c)"
  by (simp add: all_clean_def set_full_text_def segments_def)

lemma all_clean_empty: "all_clean empty_content"
  by (simp add: all_clean_def segments_def empty_content_def)

lemma all_clean_shiva: "all_clean (extract_shiva_tandav_content lw d)"
proof -
  let ?r = "shiva_walk lw (empty_content, cps ''Shiva Tandav Stotram'') (article_elements d)"
  have a: "all_clean (fst (fst ?r))" by (rule all_clean_shiva_walk) (simp add: all_clean_empty)
  have b: "all_clean (fst (fst (aggressive_walk (fst ?r) (article_all_tags d))))"
    using a by (rule all_clean_aggressive_walk)
  show ?thesis using a b
    by (auto simp: extract_shiva_tandav_content_def all_clean_set_full_text
        split: prod.splits option.splits)
qed

lemma all_clean_extract: "all_clean (extract_article_content lw d)"
  using all_clean_walk[of "(empty_content, cps ''General'')" lw devanagari_chars]
  by (auto simp: extract_article_content_def all_clean_shiva all_clean_set_full_text all_clean_empty
      classify_elements_walk split: option.splits)

section \<open>The example page, evaluated\<close>

lemmas eval_clean = clean_text_eq cps_def split_space_Cons split_nonspace_Cons split_Nil isspace_def

lemma example_clean:
  "clean_text (cps ''Introduction'') = cps ''Introduction''"
  "clean_text (cps '' om namah  shivaya '' @ [2405]) = cps ''om namah shivaya '' @ [2405]"
  "clean_text (cps ''om namah shivaya '' @ [2405, 10]) = cps ''om namah shivaya '' @ [2405]"
  "clean_text (cps ''The Meaning of it'') = cps ''The Meaning of it''"
  "clean_text (cps ''A plain sentence with over thirty chars.'') = cps ''A plain sentence with over thirty chars.''"
  "clean_text (cps ''short text!'') = cps ''short text!''"
  "clean_text (cps ''Meaning'') = cps ''Meaning''"
  "clean_text (cps ''Another plain sentence, thirty chars.'') = cps ''Another plain sentence, thirty chars.''"
  by (simp_all add: eval_clean)

lemma classified_texts_example:
  "classified_texts example_elements =
     [cps ''om namah shivaya '' @ [2405], cps ''om namah shivaya '' @ [2405],
      cps ''The Meaning of it'', cps ''A plain sentence with over thirty chars.'',
      cps ''short text!'', cps ''Another plain sentence, thirty chars.'']"
  by (simp add: classified_texts_def example_elements_def example_clean is_heading_def heading_names_def)
    (simp add: cps_def)


lemma is_verse_example: "is_verse devanagari_chars (cps ''om namah shivaya '' @ [2405])"
  by (simp add: is_verse_def devanagari_chars_def cps_def)

lemma not_verse_example:
  "\<not> is_verse devanagari_chars (cps ''The Meaning of it'')"
  "\<not> is_verse devanagari_chars (cps ''A plain sentence with over thirty chars.'')"
  "\<not> is_verse devanagari_chars (cps ''short text!'')"
  by (simp_all add: is_verse_def devanagari_chars_def cps_def)

lemma is_meaning_example:
  "is_meaning ascii_lower (cps ''The Meaning of it'')"
  "\<not> is_meaning ascii_lower (cps ''A plain sentence with over thirty chars.'')"
  "\<not> is_meaning ascii_lower (cps ''short text!'')"
  by (simp_all add: is_meaning_def meaning_words_def ascii_lower_def cps_def)

lemma not_verse_example2:
  "\<not> is_verse devanagari_chars (cps ''Another plain sentence, thirty chars.'')"
  by (simp add: is_verse_def devanagari_chars_def cps_def)

lemma classified_texts_plain:
  "classified_texts plain_elements =
     [cps ''A plain sentence with over thirty chars.'', cps ''short text!'']"
  by (simp add: classified_texts_def plain_elements_def example_clean is_heading_def heading_names_def)
    (simp add: cps_def)

lemma plain_generic: "generic_page plain_document"
  by (simp add: generic_page_def plain_document_def cps_def)

lemma plain_page_elements: "page_elements plain_document = plain_elements"
  by (simp add: page_elements_def plain_document_def)

lemma plain_no_heading: "\<forall>e\<in>set (page_elements plain_document). \<not> is_heading e"
  by (simp add: plain_page_elements plain_elements_def is_heading_def heading_names_def)

lemma example_lengths:
  "30 < length (cps ''A plain sentence with over thirty chars.'')"
  "\<not> 30 < length (cps ''short text!'')"
  by (simp_all add: cps_def)

lemma plain_lists:
  "[t \<leftarrow> classified_texts plain_elements. is_verse devanagari_chars t] = []"
  "[t \<leftarrow> classified_texts plain_elements. \<not> is_verse devanagari_chars t \<and> is_meaning ascii_lower t] = []"
  "[t \<leftarrow> classified_texts plain_elements.
      \<not> is_verse devanagari_chars t \<and> \<not> is_meaning ascii_lower t \<and> 30 < length t]
     = [cps ''A plain sentence with over thirty chars.'']"
  by (simp_all add: classified_texts_plain not_verse_example is_meaning_example example_lengths)

section \<open>The generic path, and what the section lists hold\<close>

lemma classify_elements_Nil: "classify_elements lw [] = (empty_content, cps ''General'')"
  by (simp add: classify_elements_def)

lemma extract_generic:
  "generic_page d \<Longrightarrow>
   extract_article_content lw d = set_full_text (fst (classify_elements lw (page_elements d)))"
  by (simp add: extract_article_content_def generic_page_def page_elements_def
      classify_elements_Nil split: option.splits)

lemma set_full_text_fields [simp]:
  "verses (set_full_text c) = verses c"
  "meanings (set_full_text c) = meanings c"
  "paragraphs (set_full_text c) = paragraphs c"
  "sections (set_full_text c) = sections c"
  "full_text (set_full_text c) = Some (join [10, 10] (full_text_parts c))"
  by (simp_all add: set_full_text_def)

text \<open>Section entries against category entries.\<close>

lemma within_to_section:
  assumes "mset (concat (map snd (sections c))) + {#x#} \<subseteq># mset (tagged_entries c)"
  shows "sections_within_categories (to_section cur x c)"
proof (cases "has_key (sections c) cur")
  case True
  then show ?thesis using assms mset_dict_append[OF True, of x]
    by (simp add: sections_within_categories_def to_section_def tagged_entries_def)
next
  case False
  have "mset (concat (map snd (sections c))) \<subseteq># mset (concat (map snd (sections c))) + {#x#}"
    by simp
  then have "mset (concat (map snd (sections c))) \<subseteq># mset (tagged_entries c)"
    using assms by (rule subset_mset.order_trans)
  then show ?thesis using False
    by (simp add: sections_within_categories_def to_section_def)
qed

lemma within_add_verse:
  assumes "sections_within_categories c"
  shows "sections_within_categories (add_verse cur t c)"
proof (cases "t \<in> set (verses c)")
  case True
  then show ?thesis using assms by (simp add: add_verse_def)
next
  case False
  let ?c = "c\<lparr>verses := verses c @ [t]\<rparr>"
  have "mset (tagged_entries ?c) = mset (tagged_entries c) + {#cps ''VERSE: '' @ t#}"
    by (simp add: tagged_entries_def)
  moreover have "mset (concat (map snd (sections c))) + {#cps ''VERSE: '' @ t#}
      \<subseteq># mset (tagged_entries c) + {#cps ''VERSE: '' @ t#}"
    using assms unfolding sections_within_categories_def by simp
  ultimately have "mset (concat (map snd (sections ?c))) + {#cps ''VERSE: '' @ t#} \<subseteq># mset (tagged_entries ?c)"
    by simp
  then have "sections_within_categories (to_section cur (cps ''VERSE: '' @ t) ?c)"
    by (rule within_to_section)
  then show ?thesis using False by (simp add: add_verse_def)
qed

lemma within_add_meaning:
  assumes "sections_within_categories c"
  shows "sections_within_categories (add_meaning cur t c)"
proof (cases "t \<in> set (meanings c)")
  case True
  then show ?thesis using assms by (simp add: add_meaning_def)
next
  case False
  let ?c = "c\<lparr>meanings := meanings c @ [t]\<rparr>"
  have "mset (tagged_entries ?c) = mset (tagged_entries c) + {#cps ''MEANING: '' @ t#}"
    by (simp add: tagged_entries_def)
  moreover have "mset (concat (map snd (sections c))) + {#cps ''MEANING: '' @ t#}
      \<subseteq># mset (tagged_entries c) + {#cps ''MEANING: '' @ t#}"
    using assms unfolding sections_within_categories_def by simp
  ultimately have "mset (concat (map snd (sections ?c))) + {#cps ''MEANING: '' @ t#} \<subseteq># mset (tagged_entries ?c)"
    by simp
  then have "sections_within_categories (to_section cur (cps ''MEANING: '' @ t) ?c)"
    by (rule within_to_section)
  then show ?thesis using False by (simp add: add_meaning_def)
qed

lemma within_add_paragraph:
  assumes "sections_within_categories c"
  shows "sections_within_categories (add_paragraph cur t c)"
proof (cases "t \<in> set (paragraphs c)")
  case True
  then show ?thesis using assms by (simp add: add_paragraph_def)
next
  case False
  let ?c = "c\<lparr>paragraphs := paragraphs c @ [t]\<rparr>"
  have "mset (tagged_entries ?c) = mset (tagged_entries c) + {#t#}"
    by (simp add: tagged_entries_def)
  moreover have "mset (concat (map snd (sections c))) + {#t#}
      \<subseteq># mset (tagged_entries c) + {#t#}"
    using assms unfolding sections_within_categories_def by simp
  ultimately have "mset (concat (map snd (sections ?c))) + {#t#} \<subseteq># mset (tagged_entries ?c)"
    by simp
  then have "sections_within_categories (to_section cur (t) ?c)"
    by (rule within_to_section)
  then show ?thesis using False by (simp add: add_paragraph_def)
qed

lemma within_step:
  assumes "sections_within_categories (fst st)"
  shows "sections_within_categories (fst (classify_element lw M st e))"
proof -
  obtain c cur where st: "st = (c, cur)" by (cases st)
  have c: "sections_within_categories c" using assms st by simp
  have h: "sections_within_categories (c\<lparr>sections := sections c @ [(clean_text (elem_text e), [])]\<rparr>)"
    using c by (simp add: sections_within_categories_def tagged_entries_def)
  show ?thesis
    using c h within_add_verse[OF c] within_add_meaning[OF c] within_add_paragraph[OF c]
    by (simp add: st classify_element_def Let_def)
qed

lemma within_walk:
  "sections_within_categories (fst st) \<Longrightarrow> sections_within_categories (fst (walk lw M st es))"
  by (induction es arbitrary: st) (simp_all add: within_step)

lemma within_classify: "sections_within_categories (fst (classify_elements lw es))"
  unfolding classify_elements_walk
  by (rule within_walk) (simp add: sections_within_categories_def empty_content_def tagged_entries_def)

lemma section_entry_tagged:
  assumes "sections_within_categories c" "x \<in> set (concat (map snd (sections c)))"
  shows "x \<in> set (tagged_entries c)"
proof -
  have "x \<in># mset (concat (map snd (sections c)))" using assms(2) by simp
  then have "x \<in># mset (tagged_entries c)"
    using assms(1) unfolding sections_within_categories_def by (rule mset_subset_eqD[rotated])
  then show ?thesis by simp
qed

section \<open>The rule chain\<close>

lemma str_in_append_left: "str_in m v \<Longrightarrow> str_in m (p @ v)"
  by (induction p) auto

lemma is_verse_append_left: "is_verse M v \<Longrightarrow> is_verse M (p @ v)"
  by (auto simp: is_verse_def intro: str_in_append_left)

lemma ascii_lower_meaning_tag:
  "str_in (cps ''meaning'') (ascii_lower (cps ''MEANING: '' @ s))"
  by (simp add: ascii_lower_def cps_def)

lemma is_meaning_tag:
  assumes "\<forall>s. str_in (cps ''meaning'') (lw (cps ''MEANING: '' @ s))"
  shows "is_meaning lw (cps ''MEANING: '' @ m)"
  using assms by (auto simp: is_meaning_def meaning_words_def)

lemma in_classified_texts:
  "e \<in> set es \<Longrightarrow> \<not> is_heading e \<Longrightarrow> 10 \<le> length (clean_text (elem_text e)) \<Longrightarrow>
   clean_text (elem_text e) \<in> set (classified_texts es)"
  by (auto simp: classified_texts_def)

lemma discarded_not_in_sections:
  assumes lw: "\<forall>s. str_in (cps ''meaning'') (lw (cps ''MEANING: '' @ s))"
    and c: "sections_within_categories c"
    and v: "\<forall>x\<in>set (verses c). is_verse M x"
    and nv: "\<not> is_verse M t" and nm: "\<not> is_meaning lw t" and np: "t \<notin> set (paragraphs c)"
  shows "t \<notin> set (concat (map snd (sections c)))"
proof
  assume "t \<in> set (concat (map snd (sections c)))"
  then have "t \<in> set (tagged_entries c)" using c by (intro section_entry_tagged)
  then consider x where "x \<in> set (verses c)" "t = cps ''VERSE: '' @ x"
    | m where "t = cps ''MEANING: '' @ m" | "t \<in> set (paragraphs c)"
    by (auto simp: tagged_entries_def)
  then show False
  proof cases
    case 1
    then show False using v nv is_verse_append_left by blast
  next
    case 2
    then show False using nm is_meaning_tag[OF lw] by blast
  next
    case 3
    then show False using np by simp
  qed
qed

section \<open>Sections change only with a category list\<close>

lemma insert_new_same: "insert_new t xs = xs \<longleftrightarrow> t \<in> set xs"
  by (simp add: insert_new_def)

lemma add_verse_unchanged: "verses (add_verse cur t c) = verses c \<Longrightarrow> add_verse cur t c = c"
  by (simp add: add_verse_def split: if_splits) 

lemma add_meaning_unchanged: "meanings (add_meaning cur t c) = meanings c \<Longrightarrow> add_meaning cur t c = c"
  by (simp add: add_meaning_def split: if_splits)

lemma add_paragraph_unchanged:
  "paragraphs (add_paragraph cur t c) = paragraphs c \<Longrightarrow> add_paragraph cur t c = c"
  by (simp add: add_paragraph_def split: if_splits)

lemma step_sections_only_with_category:
  assumes "\<not> is_heading e"
    and "verses (fst (classify_element lw M (c, cur) e)) = verses c"
    and "meanings (fst (classify_element lw M (c, cur) e)) = meanings c"
    and "paragraphs (fst (classify_element lw M (c, cur) e)) = paragraphs c"
  shows "sections (fst (classify_element lw M (c, cur) e)) = sections c"
  using assms add_verse_unchanged[of cur "clean_text (elem_text e)" c]
    add_meaning_unchanged[of cur "clean_text (elem_text e)" c]
    add_paragraph_unchanged[of cur "clean_text (elem_text e)" c]
  by (auto simp: classify_element_def Let_def is_heading_def split: if_splits)

section \<open>Headings\<close>

lemma heading_texts_no_heading:
  "\<forall>e\<in>set es. \<not> is_heading e \<Longrightarrow> heading_texts es = []"
  by (simp add: heading_texts_def)

lemma sections_no_heading:
  assumes "\<forall>e\<in>set es. \<not> is_heading e"
  shows "sections (fst (classify_elements lw es)) = []"
proof -
  have "map fst (sections (fst (classify_elements lw es))) = []"
    using assms by (simp add: classify_keys heading_texts_no_heading)
  then show ?thesis by simp
qed

lemma heading_step:
  assumes "is_heading e" "10 \<le> length (clean_text (elem_text e))"
  shows "classify_element lw M (c, cur) e =
     (if has_key (sections c) (clean_text (elem_text e)) then c
      else c\<lparr>sections := sections c @ [(clean_text (elem_text e), [])]\<rparr>, clean_text (elem_text e))"
proof -
  have "strip (elem_text e) \<noteq> []" using assms(2) strip_Nil_clean[of "elem_text e"] by auto
  then show ?thesis using assms by (simp add: classify_element_def Let_def is_heading_def)
qed

lemma short_step:
  assumes "length (clean_text (elem_text e)) < 10"
  shows "classify_element lw M (c, cur) e = (c, cur)"
  using assms by (simp add: classify_element_def Let_def)

section \<open>The text report\<close>

lemma fold_section_parts:
  "fold (\<lambda>kv parts. section_parts parts kv) d acc =
     acc @ concat (map (\<lambda>kv. ([10] @ cps ''--- '' @ fst kv @ cps '' ---'') # snd kv) d)"
  by (induction d arbitrary: acc) (auto simp: section_parts_def)

lemma full_text_parts_blocks:
  "full_text_parts c =
     (if verses c = [] then [] else cps ''VERSES:'' # verses c)
     @ (if meanings c = [] then [] else ([10] @ cps ''MEANINGS:'') # meanings c)
     @ (if sections c = [] then []
        else ([10] @ cps ''SECTIONS:'')
          # concat (map (\<lambda>kv. ([10] @ cps ''--- '' @ fst kv @ cps '' ---'') # snd kv) (sections c)))"
  by (simp add: full_text_parts_def fold_section_parts)


section \<open>Properties of the adapters\<close>

lemma startswith_set: "startswith s t \<Longrightarrow> set t \<subseteq> set s"
  by (induction s t rule: startswith.induct) auto

lemma str_in_set: "str_in t s \<Longrightarrow> set t \<subseteq> set s"
proof (induction s)
  case Nil
  then show ?case by simp
next
  case (Cons a s)
  from Cons.prems have "startswith (a # s) t \<or> str_in t s" by simp
  then show ?case
  proof
    assume "startswith (a # s) t"
    then show ?thesis by (rule startswith_set)
  next
    assume "str_in t s"
    then have "set t \<subseteq> set s" by (rule Cons.IH)
    then show ?thesis by auto
  qed
qed

lemma str_in_replicate:
  "t \<noteq> [] \<Longrightarrow> x \<notin> set t \<Longrightarrow> \<not> str_in t (replicate n x)"
  using str_in_set[of t "replicate n x"] by (cases t) (auto split: if_splits)

lemma gets_simps [simp]:
  "gets [] = 0"
  "gets (Sleep n # tr) = gets tr"
  "gets (Goto # tr) = gets tr"
  "gets (ProxyGet # tr) = gets tr"
  "gets (Get ua # tr) = Suc (gets tr)"
  "gets (tr @ tr') = gets tr + gets tr'"
  by (simp_all add: gets_def)

lemma proxy_gets_simps [simp]:
  "proxy_gets [] = 0"
  "proxy_gets (Sleep n # tr) = proxy_gets tr"
  "proxy_gets (Goto # tr) = proxy_gets tr"
  "proxy_gets (Get ua # tr) = proxy_gets tr"
  "proxy_gets (ProxyGet # tr) = Suc (proxy_gets tr)"
  "proxy_gets (tr @ tr') = proxy_gets tr + proxy_gets tr'"
  by (simp_all add: proxy_gets_def)

lemma gotos_simps [simp]:
  "gotos [] = 0"
  "gotos (Sleep n # tr) = gotos tr"
  "gotos (Get ua # tr) = gotos tr"
  "gotos (ProxyGet # tr) = gotos tr"
  "gotos (Goto # tr) = Suc (gotos tr)"
  "gotos (tr @ tr') = gotos tr + gotos tr'"
  by (simp_all add: gotos_def)

lemma sleeps_simps [simp]:
  "sleeps [] = []"
  "sleeps (Sleep n # tr) = n # sleeps tr"
  "sleeps (Goto # tr) = sleeps tr"
  "sleeps (Get ua # tr) = sleeps tr"
  "sleeps (ProxyGet # tr) = sleeps tr"
  "sleeps (tr @ tr') = sleeps tr @ sleeps tr'"
  by (simp_all add: sleeps_def)

lemma requests_attempts_retry:
  assumes "a \<le> N" "N < b" "int b \<le> m" "gets tr = a"
    and "\<forall>k. a \<le> k \<and> k < N \<longrightarrow> requests_fails lw (session_get self k)"
    and "session_get self N = Returns p" "accepted lw p"
  shows "requests_attempts lw self m [a..<b] tr =
     (Inr (Some (soup p)), tr @ concat (map requests_events [a..<Suc N]))"
  using assms
proof (induction "N - a" arbitrary: a tr)
  case 0
  then have a: "a = N" by simp
  have l: "[N..<b] = N # [Suc N..<b]" using 0 by (simp add: upt_conv_Cons)
  have g: "gets (if 0 < N then tr @ [Sleep (2 ^ N)] else tr) = N" using 0 a by simp
  show ?case
    using 0 g unfolding a l
    by (simp add: Let_def accepted_def requests_events_def)
next
  case (Suc n)
  then have lt: "a < N" by simp
  have l: "[a..<b] = a # [Suc a..<b]" using Suc lt by (simp add: upt_conv_Cons)
  have l2: "[a..<Suc N] = a # [Suc a..<Suc N]" using lt by (simp add: upt_conv_Cons)
  let ?tr2 = "tr @ requests_events a"
  have g: "gets (if 0 < a then tr @ [Sleep (2 ^ a)] else tr) = a" using Suc by simp
  have f: "requests_fails lw (session_get self a)" using Suc.prems lt by simp
  have nl: "int a \<noteq> m - 1" using lt Suc.prems by simp
  have ih: "requests_attempts lw self m [Suc a..<b] ?tr2 =
     (Inr (Some (soup p)), ?tr2 @ concat (map requests_events [Suc a..<Suc N]))"
  proof (rule Suc.hyps(1))
    show "n = N - Suc a" using Suc.hyps(2) by simp
    show "Suc a \<le> N" using lt by simp
    show "gets ?tr2 = Suc a" using Suc.prems(4) by (simp add: requests_events_def)
    show "\<forall>k. Suc a \<le> k \<and> k < N \<longrightarrow> requests_fails lw (session_get self k)"
      using Suc.prems(5) by simp
  qed (use Suc.prems in simp_all)
  have step: "requests_attempts lw self m (a # [Suc a..<b]) tr =
      requests_attempts lw self m [Suc a..<b] ?tr2"
    using f nl g
    by (auto simp: Let_def requests_fails_def accepted_def requests_events_def
        split: outcome.splits)
  show ?case unfolding l step ih l2 by simp
qed

lemma scrapingbee_attempts_retry:
  assumes "a \<le> N" "N < b" "proxy_gets tr = a"
    and "\<forall>k. a \<le> k \<and> k < N \<longrightarrow> proxy_fails lw (scrapingbee self k)"
    and "scrapingbee self N = Returns p" "proxy_accepted lw p"
  shows "scrapingbee_attempts lw self m [a..<b] tr =
     (Inr (Some (soup p)), tr @ concat (map proxy_events [a..<Suc N]))"
  using assms
proof (induction "N - a" arbitrary: a tr)
  case 0
  then have a: "a = N" by simp
  have l: "[N..<b] = N # [Suc N..<b]" using 0 by (simp add: upt_conv_Cons)
  have g: "proxy_gets (if 0 < N then tr @ [Sleep (2 ^ N)] else tr) = N" using 0 a by simp
  show ?case
    using 0 g unfolding a l
    by (simp add: Let_def proxy_accepted_def proxy_events_def)
next
  case (Suc n)
  then have lt: "a < N" by simp
  have l: "[a..<b] = a # [Suc a..<b]" using Suc lt by (simp add: upt_conv_Cons)
  have l2: "[a..<Suc N] = a # [Suc a..<Suc N]" using lt by (simp add: upt_conv_Cons)
  let ?tr2 = "tr @ proxy_events a"
  have g: "proxy_gets (if 0 < a then tr @ [Sleep (2 ^ a)] else tr) = a" using Suc by simp
  have f: "proxy_fails lw (scrapingbee self a)" using Suc.prems lt by simp
  have ih: "scrapingbee_attempts lw self m [Suc a..<b] ?tr2 =
     (Inr (Some (soup p)), ?tr2 @ concat (map proxy_events [Suc a..<Suc N]))"
  proof (rule Suc.hyps(1))
    show "n = N - Suc a" using Suc.hyps(2) by simp
    show "Suc a \<le> N" using lt by simp
    show "proxy_gets ?tr2 = Suc a" using Suc.prems(3) by (simp add: proxy_events_def)
    show "\<forall>k. Suc a \<le> k \<and> k < N \<longrightarrow> proxy_fails lw (scrapingbee self k)"
      using Suc.prems(4) by simp
  qed (use Suc.prems in simp_all)
  have step: "scrapingbee_attempts lw self m (a # [Suc a..<b]) tr =
      scrapingbee_attempts lw self m [Suc a..<b] ?tr2"
    using f g
    by (auto simp: Let_def proxy_fails_def proxy_accepted_def proxy_events_def
        split: outcome.splits)
  show ?case unfolding l step ih l2 by simp
qed

lemma browser_events_gotos [simp]: "gotos (browser_events k r) = 1"
  by (cases r) (simp_all add: browser_events_def)

lemma playwright_attempts_retry:
  assumes "a \<le> N" "N < b" "int b \<le> m" "gotos tr = a"
    and "\<forall>k. a \<le> k \<and> k < N \<longrightarrow> browser_fails lw (browser self k)"
    and "browser self N = Rendered p" "accepted lw p"
  shows "playwright_attempts lw self m [a..<b] tr =
     (Inr (Some (soup p)),
      tr @ concat (map (\<lambda>k. browser_events k (browser self k)) [a..<N]) @ [Goto, Sleep 2])"
  using assms
proof (induction "N - a" arbitrary: a tr)
  case 0
  then have a: "a = N" by simp
  have l: "[N..<b] = N # [Suc N..<b]" using 0 by (simp add: upt_conv_Cons)
  show ?case
    using 0 unfolding a l
    by (simp add: Let_def accepted_def)
next
  case (Suc n)
  then have lt: "a < N" by simp
  have l: "[a..<b] = a # [Suc a..<b]" using Suc lt by (simp add: upt_conv_Cons)
  have l2: "[a..<N] = a # [Suc a..<N]" using lt by (simp add: upt_conv_Cons)
  let ?tr2 = "tr @ browser_events a (browser self a)"
  have f: "browser_fails lw (browser self a)" using Suc.prems lt by simp
  have nl: "int a \<noteq> m - 1" using lt Suc.prems by simp
  have ih: "playwright_attempts lw self m [Suc a..<b] ?tr2 =
     (Inr (Some (soup p)),
      ?tr2 @ concat (map (\<lambda>k. browser_events k (browser self k)) [Suc a..<N]) @ [Goto, Sleep 2])"
  proof (rule Suc.hyps(1))
    show "n = N - Suc a" using Suc.hyps(2) by simp
    show "Suc a \<le> N" using lt by simp
    show "gotos ?tr2 = Suc a" using Suc.prems(4) by simp
    show "\<forall>k. Suc a \<le> k \<and> k < N \<longrightarrow> browser_fails lw (browser self k)"
      using Suc.prems(5) by simp
  qed (use Suc.prems in simp_all)
  have step: "playwright_attempts lw self m (a # [Suc a..<b]) tr =
      playwright_attempts lw self m [Suc a..<b] ?tr2"
  proof (cases "browser self a")
    case (Navigation_raises e)
    then show ?thesis using nl Suc.prems(4) by (simp add: Let_def browser_events_def)
  next
    case (Content_raises e)
    then show ?thesis using nl Suc.prems(4) by (simp add: Let_def browser_events_def)
  next
    case (Rendered q)
    then have "\<not> accepted lw q" using f by (simp add: browser_fails_def)
    then show ?thesis
      using Rendered Suc.prems(4) by (auto simp: Let_def accepted_def browser_events_def)
  qed
  show ?case unfolding l step ih l2 by simp
qed

lemma events_gotos:
  "gotos (concat (map (\<lambda>k. browser_events k (browser self k)) [a..<b])) = b - a"
  by (induction b) (simp_all add: Suc_diff_le)

lemma events_gets: "gets (concat (map requests_events [a..<b])) = b - a"
  by (induction b) (simp_all add: requests_events_def Suc_diff_le)

lemma events_proxy_gets: "proxy_gets (concat (map proxy_events [a..<b])) = b - a"
  by (induction b) (simp_all add: proxy_events_def Suc_diff_le)

lemma events_sleeps:
  "sleeps (concat (map requests_events [0..<Suc N])) = map (\<lambda>k. 2 ^ k) [1..<Suc N]"
  by (induction N) (simp_all add: requests_events_def)

lemma events_proxy_sleeps:
  "sleeps (concat (map proxy_events [0..<Suc N])) = map (\<lambda>k. 2 ^ k) [1..<Suc N]"
  by (induction N) (simp_all add: proxy_events_def)

lemma requests_attempts_bound:
  "gets (snd (requests_attempts lw self m as tr)) \<le> gets tr + length as"
proof (induction as arbitrary: tr)
  case Nil
  show ?case by simp
next
  case (Cons a as)
  let ?tr2 = "(if 0 < a then tr @ [Sleep (2 ^ a)] else tr) @ [Get (user_agents ! (a mod length user_agents))]"
  have g: "gets ?tr2 = Suc (gets tr)" by simp
  have ih: "gets (snd (requests_attempts lw self m as ?tr2)) \<le> Suc (gets tr) + length as"
    using Cons[of ?tr2] g by simp
  show ?case
    using ih g
    by (cases "session_get self (gets (if 0 < a then tr @ [Sleep (2 ^ a)] else tr))")
      (auto simp: Let_def)
qed

lemma scrapingbee_attempts_bound:
  "proxy_gets (snd (scrapingbee_attempts lw self m as tr)) \<le> proxy_gets tr + length as"
proof (induction as arbitrary: tr)
  case Nil
  show ?case by simp
next
  case (Cons a as)
  let ?tr2 = "(if 0 < a then tr @ [Sleep (2 ^ a)] else tr) @ [ProxyGet]"
  have g: "proxy_gets ?tr2 = Suc (proxy_gets tr)" by simp
  have ih: "proxy_gets (snd (scrapingbee_attempts lw self m as ?tr2)) \<le> Suc (proxy_gets tr) + length as"
    using Cons[of ?tr2] g by simp
  show ?case
    using ih g
    by (cases "scrapingbee self (proxy_gets (if 0 < a then tr @ [Sleep (2 ^ a)] else tr))")
      (auto simp: Let_def)
qed

text \<open>
  Exceptions of the class \<open>RequestException\<close> never leave \<open>get_page\<close>: when the HTTP
  attempts raise nothing else, \<open>get_page\<close> returns.
\<close>

lemma exn_cases: "e \<noteq> RequestException \<Longrightarrow> e = OtherException"
  by (cases e) auto

lemma requests_attempts_no_escape:
  assumes "\<forall>n. session_get self n \<noteq> Raises OtherException"
  shows "\<exists>r. fst (requests_attempts lw self m as tr) = Inr r"
proof (induction as arbitrary: tr)
  case Nil
  show ?case by simp
next
  case (Cons a as)
  let ?tr1 = "if 0 < a then tr @ [Sleep (2 ^ a)] else tr"
  show ?case
  proof (cases "session_get self (gets ?tr1)")
    case (Raises e)
    then have "e = RequestException" using assms exn_cases by metis
    then show ?thesis using Raises Cons by (simp add: Let_def)
  next
    case (Returns p)
    then show ?thesis using Cons by (simp add: Let_def)
  qed
qed

lemma scrapingbee_attempts_no_escape:
  "\<exists>r. fst (scrapingbee_attempts lw self m as tr) = Inr r"
proof (induction as arbitrary: tr)
  case Nil
  show ?case by simp
next
  case (Cons a as)
  then show ?case
    by (cases "scrapingbee self (proxy_gets (if 0 < a then tr @ [Sleep (2 ^ a)] else tr))")
      (simp_all add: Let_def)
qed

lemma playwright_attempts_no_escape:
  assumes "\<forall>n. session_get self n \<noteq> Raises OtherException"
  shows "\<exists>r. fst (playwright_attempts lw self m as tr) = Inr r"
proof (induction as arbitrary: tr)
  case Nil
  show ?case by simp
next
  case (Cons a as)
  show ?case
  proof (cases "browser self (gotos tr)")
    case (Navigation_raises e)
    then show ?thesis
      using Cons requests_attempts_no_escape[OF assms, of lw m "[0..<nat m]"]
      by (simp add: Let_def get_page_with_requests_def)
  next
    case (Content_raises e)
    then show ?thesis
      using Cons requests_attempts_no_escape[OF assms, of lw m "[0..<nat m]"]
      by (simp add: Let_def get_page_with_requests_def)
  next
    case (Rendered p)
    then show ?thesis using Cons by (simp add: Let_def)
  qed
qed

lemma get_page_no_escape:
  assumes "\<forall>n. session_get self n \<noteq> Raises OtherException"
  shows "\<exists>r. fst (get_page lw self m) = Inr r"
proof -
  have "\<exists>r1 tr1. (if use_playwright self \<and> page_ready self
            then get_page_with_playwright lw self m [] else (Inr None, [])) = (Inr r1, tr1)"
  proof (cases "use_playwright self \<and> page_ready self")
    case True
    obtain x tr where x: "playwright_attempts lw self m [0..<nat m] [] = (x, tr)"
      by (cases "playwright_attempts lw self m [0..<nat m] []")
    then obtain r where "x = Inr r"
      using playwright_attempts_no_escape[OF assms, of lw m "[0..<nat m]" "[]"] by auto
    then show ?thesis using True x by (simp add: get_page_with_playwright_def)
  next
    case False
    then show ?thesis by auto
  qed
  then obtain r1 tr1 where p: "(if use_playwright self \<and> page_ready self
            then get_page_with_playwright lw self m [] else (Inr None, [])) = (Inr r1, tr1)"
    by blast
  obtain r2 tr2 where q: "get_page_with_requests lw self m tr1 = (Inr r2, tr2)"
    using requests_attempts_no_escape[OF assms, of lw m "[0..<nat m]" tr1]
    by (cases "requests_attempts lw self m [0..<nat m] tr1")
      (auto simp: get_page_with_requests_def)
  have "\<exists>r3 tr3. get_page_with_scrapingbee lw self m tr2 = (Inr r3, tr3)"
  proof (cases "\<not> use_scrapingbee self \<or> \<not> key_configured self")
    case True
    then show ?thesis by (simp add: get_page_with_scrapingbee_def)
  next
    case False
    obtain x tr where x: "scrapingbee_attempts lw self m [0..<nat m] tr2 = (x, tr)"
      by (cases "scrapingbee_attempts lw self m [0..<nat m] tr2")
    then obtain r where "x = Inr r"
      using scrapingbee_attempts_no_escape[of lw self m "[0..<nat m]" tr2] by auto
    then show ?thesis using False x by (simp add: get_page_with_scrapingbee_def)
  qed
  then obtain r3 tr3 where s: "get_page_with_scrapingbee lw self m tr2 = (Inr r3, tr3)"
    by blast
  show ?thesis
    unfolding get_page_def p
    by (cases r1; cases r2) (simp_all add: q s)
qed

lemma requests_attempts_gotos:
  "gotos (snd (requests_attempts lw self m as tr)) = gotos tr"
proof (induction as arbitrary: tr)
  case Nil
  show ?case by simp
next
  case (Cons a as)
  let ?tr2 = "(if 0 < a then tr @ [Sleep (2 ^ a)] else tr) @ [Get (user_agents ! (a mod length user_agents))]"
  have g: "gotos ?tr2 = gotos tr" by simp
  have ih: "gotos (snd (requests_attempts lw self m as ?tr2)) = gotos tr"
    using Cons[of ?tr2] g by simp
  show ?case
    using ih g
    by (cases "session_get self (gets (if 0 < a then tr @ [Sleep (2 ^ a)] else tr))")
      (auto simp: Let_def)
qed

lemma playwright_attempts_bound:
  "gotos (snd (playwright_attempts lw self m as tr)) \<le> gotos tr + length as"
proof (induction as arbitrary: tr)
  case Nil
  show ?case by simp
next
  case (Cons a as)
  show ?case
  proof (cases "browser self (gotos tr)")
    case (Navigation_raises e)
    have "gotos (snd (playwright_attempts lw self m as ((tr @ [Goto]) @ [Sleep (2 ^ a)])))
        \<le> gotos ((tr @ [Goto]) @ [Sleep (2 ^ a)]) + length as"
      by (rule Cons)
    then show ?thesis
      using Navigation_raises requests_attempts_gotos[of lw self m "[0..<nat m]" "tr @ [Goto]"]
      by (simp add: Let_def get_page_with_requests_def)
  next
    case (Content_raises e)
    have "gotos (snd (playwright_attempts lw self m as (((tr @ [Goto]) @ [Sleep 2]) @ [Sleep (2 ^ a)])))
        \<le> gotos (((tr @ [Goto]) @ [Sleep 2]) @ [Sleep (2 ^ a)]) + length as"
      by (rule Cons)
    then show ?thesis
      using Content_raises
        requests_attempts_gotos[of lw self m "[0..<nat m]" "(tr @ [Goto]) @ [Sleep 2]"]
      by (simp add: Let_def get_page_with_requests_def)
  next
    case (Rendered p)
    have "gotos (snd (playwright_attempts lw self m as ((tr @ [Goto]) @ [Sleep 2])))
        \<le> gotos ((tr @ [Goto]) @ [Sleep 2]) + length as"
      by (rule Cons)
    then show ?thesis using Rendered by (simp add: Let_def)
  qed
qed

lemma accepted_proxy_accepted: "accepted lw p \<Longrightarrow> proxy_accepted lw p"
  by (simp add: accepted_def proxy_accepted_def)

section \<open>The specialised extractor under exceptions\<close>

lemma step_full_text:
  "full_text (fst (classify_element lw M st e)) = full_text (fst st)"
  by (cases st)
    (simp add: classify_element_def Let_def add_verse_def add_meaning_def add_paragraph_def)

lemma walk_full_text: "full_text (fst (walk lw M st es)) = full_text (fst st)"
  by (induction es arbitrary: st) (simp_all add: step_full_text)

lemma aggressive_full_text: "full_text (fst (aggressive_element st e)) = full_text (fst st)"
  by (cases st) (simp add: aggressive_element_def Let_def add_verse_def)

lemma aggressive_pass_full_text: "full_text (fst (aggressive_pass st es)) = full_text (fst st)"
  unfolding aggressive_pass_def
  by (induction es arbitrary: st) (simp_all add: aggressive_full_text)

lemma shiva_walk_raise:
  "shiva_walk lw st (map Returns pre @ Raises e # post) = (walk lw shiva_chars st pre, Some e)"
  by (induction pre arbitrary: st) simp_all

lemma shiva_walk_returns:
  "shiva_walk lw st (map Returns es) = (walk lw shiva_chars st es, None)"
  by (induction es arbitrary: st) simp_all

lemma aggressive_walk_raise:
  "aggressive_walk st (map Returns pre @ Raises e # post) = (aggressive_pass st pre, Some e)"
  unfolding aggressive_pass_def by (induction pre arbitrary: st) simp_all

lemma preview_no_full_text: "full_text c = None \<Longrightarrow> preview c = []"
  by (simp add: preview_def full_text_or_empty_def)

lemma is_verse_shiva_example: "is_verse shiva_chars (cps ''om namah shivaya '' @ [2405])"
  by (simp add: is_verse_def shiva_chars_def devanagari_chars_def cps_def)

lemma faulty_elements:
  "article_elements faulty_document =
     map Returns [\<lparr>elem_name = ''p'', elem_text = cps '' om namah  shivaya '' @ [2405]\<rparr>]
       @ Raises OtherException # []"
  by (simp add: faulty_document_def)

lemma faulty_verses:
  "verses (fst (walk ascii_lower shiva_chars shiva_start
      [\<lparr>elem_name = ''p'', elem_text = cps '' om namah  shivaya '' @ [2405]\<rparr>]))
   = [cps ''om namah shivaya '' @ [2405]]"
proof -
  have "10 \<le> length (cps ''om namah shivaya '' @ [2405])" by (simp add: cps_def)
  then have "seen \<lparr>elem_name = ''p'', elem_text = cps '' om namah  shivaya '' @ [2405]\<rparr>"
    by (simp add: seen_def is_heading_def heading_names_def example_clean)
  then show ?thesis
    by (simp add: step_verses example_clean is_verse_shiva_example insert_new_def shiva_start_def
        empty_content_def)
qed

lemma faulty_not_generic: "\<not> generic_page faulty_document"
  by (simp add: generic_page_def faulty_document_def cps_def)

section \<open>The example scrapers, evaluated\<close>

lemma no_block_term_x: "\<not> has_block_term ascii_lower (replicate n 120)"
proof -
  have "ascii_lower (replicate n 120) = replicate n 120" by (simp add: ascii_lower_def)
  moreover have "\<forall>t\<in>set block_terms. t \<noteq> [] \<and> 120 \<notin> set t"
    by (simp add: block_terms_def cps_def)
  ultimately have "\<not> str_in t (ascii_lower (replicate n 120))" if "t \<in> set block_terms" for t
    using that str_in_replicate[of t 120 n] by simp
  then show ?thesis unfolding has_block_term_def by blast
qed

lemma good_page_accepted: "accepted ascii_lower good_page" "proxy_accepted ascii_lower good_page"
  by (simp_all add: accepted_def proxy_accepted_def good_page_def no_block_term_x
      find_block_term_def plain_document_def)

lemma flaky_fails:
  "\<forall>k<2. requests_fails ascii_lower (flaky k)"
  "\<forall>k<2. proxy_fails ascii_lower (flaky k)"
  "flaky 2 = Returns good_page"
  by (simp_all add: flaky_def requests_fails_def proxy_fails_def)

lemma flaky_browser_fails:
  "\<forall>k<2. browser_fails ascii_lower (flaky_browser k)"
  "flaky_browser 0 = Navigation_raises OtherException"
  "flaky_browser 1 = Navigation_raises OtherException"
  "flaky_browser (Suc 0) = Navigation_raises OtherException"
  "flaky_browser 2 = Rendered good_page"
  by (simp_all add: flaky_browser_def browser_fails_def)

lemma rejecting_browser_fails:
  "\<forall>k<2. browser_fails ascii_lower (rejecting_browser k)"
  "rejecting_browser 0 = Rendered short_page"
  "rejecting_browser 1 = Rendered short_page"
  "rejecting_browser (Suc 0) = Rendered short_page"
  "rejecting_browser 2 = Rendered good_page"
  by (simp_all add: rejecting_browser_def browser_fails_def accepted_def short_page_def)

lemma rejecting_scraper_fields:
  "browser rejecting_scraper = rejecting_browser"
  "use_playwright rejecting_scraper" "page_ready rejecting_scraper"
  by (simp_all add: rejecting_scraper_def)

lemma upt_2: "[0..<2] = [0, 1]"
  by (simp add: upt_rec)

lemma upt_3: "[0..<3] = [0, 1, 2]" "[1..<3] = [1, 2]" "[0..<Suc 2] = [0, 1, 2]"
  by (simp_all add: upt_rec)

lemma flaky_scraper_fields:
  "session_get flaky_scraper = flaky" "scrapingbee flaky_scraper = flaky"
  "browser flaky_scraper = flaky_browser" "use_scrapingbee flaky_scraper" "key_configured flaky_scraper"
  "use_playwright flaky_scraper" "page_ready flaky_scraper"
  by (simp_all add: flaky_scraper_def key_configured_def cps_def)

lemma entity_raw_clean: "\<not> has_block_term ascii_lower (html entity_page)"
  by (simp add: has_block_term_def block_terms_def cps_def ascii_lower_def entity_page_def
      str_in_replicate)

lemma entity_rescan: "find_block_term (soup entity_page) = Some (cps ''captcha'')"
  by (simp add: find_block_term_def entity_page_def entity_document_def pattern_search_def
      block_terms_def cps_def ignorecase_matches_def)

lemma entity_length: "\<not> length (html entity_page) < 1000"
  by (simp add: entity_page_def)

lemma upt_1: "[0..<nat 1] = [0]"
  by simp

lemma entity_scraper_fields:
  "session_get entity_scraper n = Returns entity_page"
  "scrapingbee entity_scraper n = Returns entity_page"
  "browser entity_scraper n = Rendered entity_page"
  "use_scrapingbee entity_scraper" "key_configured entity_scraper"
  "use_playwright entity_scraper" "page_ready entity_scraper"
  by (simp_all add: entity_scraper_def key_configured_def cps_def)

text \<open>
  The search of the pattern ignores case beyond ASCII: the long s and the two further forms
  of i are found, which the test of the lower-cased raw content does not see.
\<close>

lemma pattern_search_examples:
  "pattern_search (cps ''acce'' @ [383] @ cps ''s denied'')"
  "pattern_search (cps ''access den'' @ [305] @ cps ''ed'')"
  "pattern_search (cps ''ACCESS DEN'' @ [304] @ cps ''ED'')"
  "pattern_search (cps ''behind CloudFlare'')"
  "\<not> pattern_search (cps ''access  denied'')"
  "\<not> has_block_term ascii_lower (cps ''acce'' @ [383] @ cps ''s denied'')"
  by (simp_all add: pattern_search_def has_block_term_def block_terms_def cps_def
      ignorecase_matches_def ascii_lower_def)

lemma long_s_page_rejected:
  "\<not> accepted lw \<lparr>html = h, soup = d\<lparr>strings := [cps ''acce'' @ [383] @ cps ''s denied'']\<rparr>\<rparr>"
  by (simp add: accepted_def find_block_term_def pattern_search_def block_terms_def cps_def
      ignorecase_matches_def)

section \<open>The report of an example page\<close>

lemma clean_text_word: "word w \<Longrightarrow> clean_text w = w"
  using split_word_append[of w "[]"] by (simp add: clean_text_eq split_Nil)

lemma long_generic: "generic_page (long_document n)"
  by (simp add: generic_page_def long_document_def cps_def)

lemma long_extract:
  assumes "50 < n"
  shows "verses (extract_article_content ascii_lower (long_document n)) = [replicate n 97]"
    and "paragraphs (extract_article_content ascii_lower (long_document n)) = []"
    and "sections (extract_article_content ascii_lower (long_document n)) = []"
    and "full_text (extract_article_content ascii_lower (long_document n))
       = Some (cps ''VERSES:'' @ [10, 10] @ replicate n 97)"
proof -
  let ?e = "\<lparr>elem_name = ''p'', elem_text = replicate n 97\<rparr>"
  have w: "word (replicate n 97)" using assms by (auto simp: word_def isspace_def)
  have ct: "clean_text (replicate n 97) = replicate n 97" using w by (rule clean_text_word)
  have pe: "page_elements (long_document n) = [?e]"
    by (simp add: page_elements_def long_document_def)
  have nh: "\<not> is_heading ?e" by (simp add: is_heading_def heading_names_def)
  have texts: "classified_texts [?e] = [replicate n 97]"
    using nh assms by (simp add: classified_texts_def ct)
  have v: "is_verse devanagari_chars (replicate n 97)" using assms by (simp add: is_verse_def)
  have f: "first_occurrences [replicate n (97::nat)] = [replicate n 97]"
    by (simp add: first_occurrences_def)
  let ?c = "fst (classify_elements ascii_lower [?e])"
  have out: "extract_article_content ascii_lower (long_document n) = set_full_text ?c"
    using long_generic by (simp add: extract_generic pe)
  have cv: "verses ?c = [replicate n 97]" by (simp add: classify_verses texts v f)
  have cm: "meanings ?c = []" by (simp add: classify_meanings texts v)
  have cp: "paragraphs ?c = []" by (simp add: classify_paragraphs texts v)
  have cs: "sections ?c = []" using nh by (intro sections_no_heading) simp
  show "verses (extract_article_content ascii_lower (long_document n)) = [replicate n 97]"
    by (simp add: out cv)
  show "paragraphs (extract_article_content ascii_lower (long_document n)) = []"
    by (simp add: out cp)
  show "sections (extract_article_content ascii_lower (long_document n)) = []"
    by (simp add: out cs)
  show "full_text (extract_article_content ascii_lower (long_document n))
       = Some (cps ''VERSES:'' @ [10, 10] @ replicate n 97)"
    by (simp add: out full_text_parts_blocks cv cm cs)
qed

lemma long_get_page: "fst (get_page ascii_lower (long_scraper n) 3) = Inr (Some (long_document n))"
proof -
  let ?p = "\<lparr>html = replicate 1000 120, soup = long_document n\<rparr>"
  have acc: "accepted ascii_lower ?p"
    by (simp add: accepted_def no_block_term_x find_block_term_def long_document_def)
  have "requests_attempts ascii_lower (long_scraper n) 3 [0..<3] [] =
     (Inr (Some (soup ?p)), [] @ concat (map requests_events [0..<Suc 0]))"
    using acc by (intro requests_attempts_retry) (simp_all add: long_scraper_def)
  then obtain tr where g: "get_page_with_requests ascii_lower (long_scraper n) 3 []
      = (Inr (Some (long_document n)), tr)"
    by (simp add: get_page_with_requests_def)
  have up: "use_playwright (long_scraper n) = False" by (simp add: long_scraper_def)
  show ?thesis by (simp add: get_page_def up g)
qed

lemma scrape_example_cases:
  assumes "pd \<in> set (scrape_example lw self u)"
  shows "\<exists>d. fst (get_page lw self 3) = Inr (Some d) \<and> pd = build_page_data lw u d"
proof (cases "fst (get_page lw self 3)")
  case (Inl e)
  then show ?thesis using assms by (simp add: scrape_example_def)
next
  case (Inr r)
  then show ?thesis using assms by (cases r) (simp_all add: scrape_example_def)
qed

lemma length_dots: "length (cps ''...'') = 3"
  by (simp add: cps_def)

lemma build_page_data_fields:
  "extracted (build_page_data lw u d) = extract_article_content lw d"
  "content_preview (build_page_data lw u d) = preview (extract_article_content lw d)"
  "num_verses (build_page_data lw u d) = length (verses (extract_article_content lw d))"
  "num_paragraphs (build_page_data lw u d) = length (paragraphs (extract_article_content lw d))"
  "num_sections (build_page_data lw u d) = length (sections (extract_article_content lw d))"
  by (simp_all add: build_page_data_def Let_def)

section \<open>Claims\<close>

text \<open>
  Claim C1: no exception escapes \<open>get_page\<close>. The browser adapter and the proxy adapter
  catch \<open>Exception\<close>; the HTTP adapter catches \<open>requests.exceptions.RequestException\<close> only,
  and \<open>get_page\<close> has no handler of its own. With the browser and the proxy switched off
  and an HTTP attempt that raises another exception (a failed write of the debug file,
  say), the exception leaves \<open>get_page\<close> on the first attempt.
\<close>

theorem other_exception_escapes:
  "get_page ascii_lower broken_scraper 3 = (Inl OtherException, [Get (user_agents ! 0)])"
  by (simp add: get_page_def broken_scraper_def get_page_with_requests_def upt_3 Let_def
      user_agents_def)

text \<open>
  Claim C2: the three adapters take the same accept or reject decision on every page. The
  HTTP and browser adapters search the parsed document for the block terms after the raw
  content; the proxy adapter has the checks of the length and of the raw content only.
  On the page whose markup writes \<open>captcha\<close> with a character reference, with one attempt
  each, the HTTP adapter and the browser adapter reject the page and return \<open>None\<close>, and
  the proxy adapter returns the document.
\<close>

theorem proxy_gate_weaker:
  "fst (get_page_with_requests ascii_lower entity_scraper 1 []) = Inr None
   \<and> fst (get_page_with_playwright ascii_lower entity_scraper 1 []) = Inr None
   \<and> fst (get_page_with_scrapingbee ascii_lower entity_scraper 1 []) = Inr (Some entity_document)"
proof -
  have s: "soup entity_page = entity_document" by (simp add: entity_page_def)
  have a: "fst (get_page_with_requests ascii_lower entity_scraper 1 []) = Inr None"
    by (simp add: get_page_with_requests_def upt_1 Let_def entity_scraper_fields entity_length
        entity_raw_clean entity_rescan)
  have b: "fst (get_page_with_playwright ascii_lower entity_scraper 1 []) = Inr None"
    by (simp add: get_page_with_playwright_def upt_1 Let_def entity_scraper_fields entity_length
        entity_raw_clean entity_rescan)
  have c: "fst (get_page_with_scrapingbee ascii_lower entity_scraper 1 []) = Inr (Some entity_document)"
    by (simp add: get_page_with_scrapingbee_def upt_1 Let_def entity_scraper_fields entity_length
        entity_raw_clean s)
  show ?thesis using a b c by simp
qed

theorem proxy_gate_weaker_witness:
  "fst (get_page_with_scrapingbee ascii_lower entity_scraper 1 [])
     \<noteq> fst (get_page_with_requests ascii_lower entity_scraper 1 [])
   \<and> fst (get_page_with_scrapingbee ascii_lower entity_scraper 1 [])
     \<noteq> fst (get_page_with_playwright ascii_lower entity_scraper 1 [])"
  using proxy_gate_weaker by simp

text \<open>
  Claim C3, as stated: in every adapter attempt \<open>k > 0\<close> is preceded by a backoff wait of
  \<open>2^k\<close> seconds, so that the waits are 1, 2, 4, ... seconds. The HTTP adapter sleeps
  \<open>2 ** attempt\<close> seconds under the guard \<open>attempt > 0\<close>: with a session that fails twice and
  then succeeds, three calls are made and the waits are 2 and 4 seconds; no wait of 1 second
  occurs. The browser adapter sleeps \<open>2 ** attempt\<close> seconds in its exception handler, after
  the attempt that failed: when two navigations fail and the third renders, attempt 1 is
  preceded by a wait of 1 second and attempt 2 by a wait of 2 seconds (the last sleep is
  the one inside the attempt that succeeds). After a page it rejects, the browser adapter
  has no backoff wait at all: when two pages are rejected and the third is accepted, the
  only sleeps are the three sleeps of 2 seconds inside the attempts.
\<close>

theorem backoff_sequence_counterexample:
  "sleeps (snd (get_page_with_requests ascii_lower flaky_scraper 3 [])) = [2, 4]
   \<and> gets (snd (get_page_with_requests ascii_lower flaky_scraper 3 [])) = 3
   \<and> sleeps (snd (get_page_with_requests ascii_lower flaky_scraper 3 [])) \<noteq> [1, 2]
   \<and> sleeps (snd (get_page_with_requests ascii_lower flaky_scraper 3 [])) \<noteq> [1, 2, 4]
   \<and> snd (get_page_with_playwright ascii_lower flaky_scraper 3 [])
       = [Goto, Sleep 1, Goto, Sleep 2, Goto, Sleep 2]
   \<and> snd (get_page_with_playwright ascii_lower rejecting_scraper 3 [])
       = [Goto, Sleep 2, Goto, Sleep 2, Goto, Sleep 2]"
proof -
  have "requests_attempts ascii_lower flaky_scraper 3 [0..<3] [] =
     (Inr (Some (soup good_page)), [] @ concat (map requests_events [0..<Suc 2]))"
    using flaky_fails good_page_accepted
    by (intro requests_attempts_retry) (simp_all add: flaky_scraper_fields)
  then have a: "snd (get_page_with_requests ascii_lower flaky_scraper 3 [])
      = concat (map requests_events [0..<Suc 2])"
    by (simp add: get_page_with_requests_def)
  have "playwright_attempts ascii_lower flaky_scraper 3 [0..<3] [] =
     (Inr (Some (soup good_page)),
      [] @ concat (map (\<lambda>k. browser_events k (browser flaky_scraper k)) [0..<2]) @ [Goto, Sleep 2])"
    using flaky_browser_fails good_page_accepted
    by (intro playwright_attempts_retry) (simp_all add: flaky_scraper_fields)
  then have b: "snd (get_page_with_playwright ascii_lower flaky_scraper 3 [])
      = concat (map (\<lambda>k. browser_events k (flaky_browser k)) [0..<2]) @ [Goto, Sleep 2]"
    by (simp add: get_page_with_playwright_def flaky_scraper_fields)
  have "playwright_attempts ascii_lower rejecting_scraper 3 [0..<3] [] =
     (Inr (Some (soup good_page)),
      [] @ concat (map (\<lambda>k. browser_events k (browser rejecting_scraper k)) [0..<2]) @ [Goto, Sleep 2])"
    using rejecting_browser_fails good_page_accepted
    by (intro playwright_attempts_retry) (simp_all add: rejecting_scraper_fields)
  then have c: "snd (get_page_with_playwright ascii_lower rejecting_scraper 3 [])
      = concat (map (\<lambda>k. browser_events k (rejecting_browser k)) [0..<2]) @ [Goto, Sleep 2]"
    by (simp add: get_page_with_playwright_def rejecting_scraper_fields)
  have a': "sleeps (concat (map requests_events [0..<Suc 2])) = [2, 4]"
    "gets (concat (map requests_events [0..<Suc 2])) = 3"
    by (simp_all add: upt_3 requests_events_def)
  have b': "concat (map (\<lambda>k. browser_events k (flaky_browser k)) [0..<2]) @ [Goto, Sleep 2]
      = [Goto, Sleep 1, Goto, Sleep 2, Goto, Sleep 2]"
    by (simp add: upt_2 browser_events_def flaky_browser_fails)
  have c': "concat (map (\<lambda>k. browser_events k (rejecting_browser k)) [0..<2]) @ [Goto, Sleep 2]
      = [Goto, Sleep 2, Goto, Sleep 2, Goto, Sleep 2]"
    by (simp add: upt_2 browser_events_def rejecting_browser_fails)
  show ?thesis unfolding a b c a' b' c' by simp
qed

text \<open>
  Claim C3, amended. Each adapter makes at most \<open>max_retries\<close> attempts, and a stub that fails
  \<open>N\<close> times and then succeeds, with \<open>N < max_retries\<close>, is called exactly \<open>N + 1\<close> times by
  each of the three adapters. In the HTTP adapter and in the proxy adapter attempt 0 runs
  at once and attempt \<open>k > 0\<close> is preceded by a wait of \<open>2^k\<close> seconds, so the waits are
  \<open>2, 4, ..., 2^N\<close>. In the browser adapter a failed attempt \<open>k\<close> that raised an exception is
  followed by a wait of \<open>2^k\<close> seconds, so after exceptions the waits are 1, 2, 4, ...; the
  events of the browser adapter are those of its failed attempts, as \<open>browser_events\<close> lists
  them, and those of the attempt that succeeds. The User-Agent of attempt \<open>k\<close> of the HTTP
  adapter is the entry of the pool at index \<open>k\<close> modulo the size of the pool.
\<close>

theorem retry_policy:
  fixes lw :: "ustr \<Rightarrow> ustr" and self :: scraper and max_retries :: int and N :: nat and p :: page
  shows "gets (snd (get_page_with_requests lw self max_retries [])) \<le> nat max_retries
   \<and> proxy_gets (snd (get_page_with_scrapingbee lw self max_retries [])) \<le> nat max_retries
   \<and> gotos (snd (get_page_with_playwright lw self max_retries [])) \<le> nat max_retries
   \<and> (N < nat max_retries \<and> (\<forall>k<N. requests_fails lw (session_get self k))
        \<and> session_get self N = Returns p \<and> accepted lw p \<longrightarrow>
      get_page_with_requests lw self max_retries []
        = (Inr (Some (soup p)), concat (map requests_events [0..<Suc N]))
      \<and> gets (snd (get_page_with_requests lw self max_retries [])) = Suc N
      \<and> sleeps (snd (get_page_with_requests lw self max_retries [])) = map (\<lambda>k. 2 ^ k) [1..<Suc N])
   \<and> (use_scrapingbee self \<and> key_configured self
        \<and> N < nat max_retries \<and> (\<forall>k<N. proxy_fails lw (scrapingbee self k))
        \<and> scrapingbee self N = Returns p \<and> proxy_accepted lw p \<longrightarrow>
      get_page_with_scrapingbee lw self max_retries []
        = (Inr (Some (soup p)), concat (map proxy_events [0..<Suc N]))
      \<and> proxy_gets (snd (get_page_with_scrapingbee lw self max_retries [])) = Suc N
      \<and> sleeps (snd (get_page_with_scrapingbee lw self max_retries [])) = map (\<lambda>k. 2 ^ k) [1..<Suc N])
   \<and> (use_playwright self \<and> page_ready self
        \<and> N < nat max_retries \<and> (\<forall>k<N. browser_fails lw (browser self k))
        \<and> browser self N = Rendered p \<and> accepted lw p \<longrightarrow>
      get_page_with_playwright lw self max_retries []
        = (Inr (Some (soup p)),
           concat (map (\<lambda>k. browser_events k (browser self k)) [0..<N]) @ [Goto, Sleep 2])
      \<and> gotos (snd (get_page_with_playwright lw self max_retries [])) = Suc N)"
proof -
  have b1: "gets (snd (get_page_with_requests lw self max_retries [])) \<le> nat max_retries"
    using requests_attempts_bound[of lw self max_retries "[0..<nat max_retries]" "[]"]
    by (simp add: get_page_with_requests_def)
  have b2: "proxy_gets (snd (get_page_with_scrapingbee lw self max_retries [])) \<le> nat max_retries"
    using scrapingbee_attempts_bound[of lw self max_retries "[0..<nat max_retries]" "[]"]
    by (simp add: get_page_with_scrapingbee_def)
  have b3: "gotos (snd (get_page_with_playwright lw self max_retries [])) \<le> nat max_retries"
    using playwright_attempts_bound[of lw self max_retries "[0..<nat max_retries]" "[]"]
    by (simp add: get_page_with_playwright_def)
  have r: "get_page_with_requests lw self max_retries []
        = (Inr (Some (soup p)), concat (map requests_events [0..<Suc N]))"
    if "N < nat max_retries" "\<forall>k<N. requests_fails lw (session_get self k)"
      "session_get self N = Returns p" "accepted lw p"
    unfolding get_page_with_requests_def
    using requests_attempts_retry[of 0 N "nat max_retries" max_retries "[]" lw self p] that
    by simp
  have s: "get_page_with_scrapingbee lw self max_retries []
        = (Inr (Some (soup p)), concat (map proxy_events [0..<Suc N]))"
    if "use_scrapingbee self" "key_configured self"
      "N < nat max_retries" "\<forall>k<N. proxy_fails lw (scrapingbee self k)"
      "scrapingbee self N = Returns p" "proxy_accepted lw p"
    unfolding get_page_with_scrapingbee_def
    using scrapingbee_attempts_retry[of 0 N "nat max_retries" "[]" lw self p max_retries] that
    by simp
  have w: "get_page_with_playwright lw self max_retries []
        = (Inr (Some (soup p)),
           concat (map (\<lambda>k. browser_events k (browser self k)) [0..<N]) @ [Goto, Sleep 2])"
    if "use_playwright self" "page_ready self"
      "N < nat max_retries" "\<forall>k<N. browser_fails lw (browser self k)"
      "browser self N = Rendered p" "accepted lw p"
    unfolding get_page_with_playwright_def
    using playwright_attempts_retry[of 0 N "nat max_retries" max_retries "[]" lw self p] that
    by simp
  have w': "gotos (concat (map (\<lambda>k. browser_events k (browser self k)) [0..<N]) @ [Goto, Sleep 2])
      = Suc N"
    using events_gotos[of self 0 N] by simp
  have r': "gets (concat (map requests_events [0..<Suc N])) = Suc N"
    using events_gets[of 0 "Suc N"] by simp
  have s': "proxy_gets (concat (map proxy_events [0..<Suc N])) = Suc N"
    using events_proxy_gets[of 0 "Suc N"] by simp
  show ?thesis
    using b1 b2 b3 r s w w' r' s' events_sleeps[of N] events_proxy_sleeps[of N]
    by (simp del: upt_Suc)
qed

theorem retry_policy_witness:
  "get_page_with_requests ascii_lower flaky_scraper 3 []
     = (Inr (Some plain_document),
        [Get (user_agents ! 0), Sleep 2, Get (user_agents ! 1), Sleep 4, Get (user_agents ! 2)])
   \<and> get_page_with_scrapingbee ascii_lower flaky_scraper 3 []
     = (Inr (Some plain_document), [ProxyGet, Sleep 2, ProxyGet, Sleep 4, ProxyGet])
   \<and> get_page_with_playwright ascii_lower flaky_scraper 3 []
     = (Inr (Some plain_document), [Goto, Sleep 1, Goto, Sleep 2, Goto, Sleep 2])
   \<and> gotos (snd (get_page_with_playwright ascii_lower flaky_scraper 3 [])) = 3"
proof -
  have n: "(2::nat) < nat 3" by simp
  have sp: "soup good_page = plain_document" by (simp add: good_page_def)
  have ua: "length user_agents = 5" by (simp add: user_agents_def)
  note T = retry_policy[where lw = ascii_lower and self = flaky_scraper and max_retries = 3
      and N = 2 and p = good_page]
  have a: "get_page_with_requests ascii_lower flaky_scraper 3 []
        = (Inr (Some (soup good_page)), concat (map requests_events [0..<Suc 2]))"
    using T n flaky_fails good_page_accepted by (simp add: flaky_scraper_fields)
  have b: "get_page_with_scrapingbee ascii_lower flaky_scraper 3 []
        = (Inr (Some (soup good_page)), concat (map proxy_events [0..<Suc 2]))"
    using T n flaky_fails good_page_accepted by (simp add: flaky_scraper_fields)
  have c: "get_page_with_playwright ascii_lower flaky_scraper 3 []
        = (Inr (Some (soup good_page)),
           concat (map (\<lambda>k. browser_events k (flaky_browser k)) [0..<2]) @ [Goto, Sleep 2])"
    using T n flaky_browser_fails good_page_accepted by (simp add: flaky_scraper_fields)
  have c': "concat (map (\<lambda>k. browser_events k (flaky_browser k)) [0..<2]) @ [Goto, Sleep 2]
      = [Goto, Sleep 1, Goto, Sleep 2, Goto, Sleep 2]"
    by (simp add: upt_2 browser_events_def flaky_browser_fails)
  show ?thesis
    unfolding a b c c' sp by (simp add: upt_3 requests_events_def proxy_events_def ua)
qed

text \<open>
  Claim C4. On a page handled by the generic ruleset, every element that is not a heading
  and whose normalised text has at least 10 characters gets the first category that
  matches, in this order: verse if the text contains one of the Devanagari markers or is
  longer than 50 characters; otherwise meaning if the lower-cased text contains one of the
  meaning words; otherwise paragraph if the text is longer than 30 characters. Its text
  is then in the list of that category and in neither of the other two. Otherwise the
  element is dropped: its text is in none of the three lists, and in no section list
  either (for a lower-casing function that turns the tag \<open>MEANING: \<close> into text that
  contains \<open>meaning\<close>, as \<open>str.lower\<close> does).
\<close>

theorem rule_chain_precedence:
  fixes lw :: "ustr \<Rightarrow> ustr" and d :: document and e :: element
  defines "t \<equiv> clean_text (elem_text e)"
    and "out \<equiv> extract_article_content lw d"
  assumes gen: "generic_page d"
    and e: "e \<in> set (page_elements d)"
    and nh: "\<not> is_heading e"
    and len: "10 \<le> length (clean_text (elem_text e))"
  shows "(is_verse devanagari_chars t \<longrightarrow>
            t \<in> set (verses out) \<and> t \<notin> set (meanings out) \<and> t \<notin> set (paragraphs out))
       \<and> (\<not> is_verse devanagari_chars t \<and> is_meaning lw t \<longrightarrow>
            t \<notin> set (verses out) \<and> t \<in> set (meanings out) \<and> t \<notin> set (paragraphs out))
       \<and> (\<not> is_verse devanagari_chars t \<and> \<not> is_meaning lw t \<and> 30 < length t \<longrightarrow>
            t \<notin> set (verses out) \<and> t \<notin> set (meanings out) \<and> t \<in> set (paragraphs out))
       \<and> (\<not> is_verse devanagari_chars t \<and> \<not> is_meaning lw t \<and> \<not> 30 < length t \<longrightarrow>
            t \<notin> set (verses out) \<and> t \<notin> set (meanings out) \<and> t \<notin> set (paragraphs out)
            \<and> ((\<forall>s. str_in (cps ''meaning'') (lw (cps ''MEANING: '' @ s))) \<longrightarrow>
                 t \<notin> set (concat (map snd (sections out)))))"
proof -
  let ?c = "fst (classify_elements lw (page_elements d))"
  have out: "verses out = verses ?c" "meanings out = meanings ?c" "paragraphs out = paragraphs ?c"
    "sections out = sections ?c"
    using gen by (simp_all add: out_def extract_generic)
  have mem: "t \<in> set (classified_texts (page_elements d))"
    unfolding t_def using e nh len by (rule in_classified_texts)
  have flat: "(is_verse devanagari_chars t \<longrightarrow>
            t \<in> set (verses out) \<and> t \<notin> set (meanings out) \<and> t \<notin> set (paragraphs out))
       \<and> (\<not> is_verse devanagari_chars t \<and> is_meaning lw t \<longrightarrow>
            t \<notin> set (verses out) \<and> t \<in> set (meanings out) \<and> t \<notin> set (paragraphs out))
       \<and> (\<not> is_verse devanagari_chars t \<and> \<not> is_meaning lw t \<and> 30 < length t \<longrightarrow>
            t \<notin> set (verses out) \<and> t \<notin> set (meanings out) \<and> t \<in> set (paragraphs out))
       \<and> (\<not> is_verse devanagari_chars t \<and> \<not> is_meaning lw t \<and> \<not> 30 < length t \<longrightarrow>
            t \<notin> set (verses out) \<and> t \<notin> set (meanings out) \<and> t \<notin> set (paragraphs out))"
    using mem by (simp add: out classify_verses classify_meanings classify_paragraphs)
  have sec: "t \<notin> set (concat (map snd (sections out)))"
    if "\<not> is_verse devanagari_chars t" "\<not> is_meaning lw t" "\<not> 30 < length t"
      "\<forall>s. str_in (cps ''meaning'') (lw (cps ''MEANING: '' @ s))"
  proof -
    have "t \<notin> set (concat (map snd (sections ?c)))"
    proof (rule discarded_not_in_sections[OF that(4) within_classify _ that(1) that(2)])
      show "\<forall>x\<in>set (verses ?c). is_verse devanagari_chars x"
        by (simp add: classify_verses)
      show "t \<notin> set (paragraphs ?c)" using that(3) by (simp add: classify_paragraphs)
    qed
    then show ?thesis by (simp add: out)
  qed
  show ?thesis using flat sec by blast
qed

theorem rule_chain_precedence_witness:
  "cps ''om namah shivaya '' @ [2405]
     \<in> set (verses (extract_article_content ascii_lower example_document))
   \<and> cps ''The Meaning of it''
     \<in> set (meanings (extract_article_content ascii_lower example_document))
   \<and> cps ''A plain sentence with over thirty chars.''
     \<in> set (paragraphs (extract_article_content ascii_lower example_document))
   \<and> cps ''short text!'' \<notin> set (verses (extract_article_content ascii_lower example_document))
   \<and> cps ''short text!'' \<notin> set (meanings (extract_article_content ascii_lower example_document))
   \<and> cps ''short text!'' \<notin> set (paragraphs (extract_article_content ascii_lower example_document))
   \<and> cps ''short text!''
     \<notin> set (concat (map snd (sections (extract_article_content ascii_lower example_document))))"
proof -
  let ?e1 = "\<lparr>elem_name = ''p'', elem_text = cps '' om namah  shivaya '' @ [2405]\<rparr>"
  let ?e2 = "\<lparr>elem_name = ''p'', elem_text = cps ''The Meaning of it''\<rparr>"
  let ?e3 = "\<lparr>elem_name = ''p'', elem_text = cps ''A plain sentence with over thirty chars.''\<rparr>"
  let ?e4 = "\<lparr>elem_name = ''span'', elem_text = cps ''short text!''\<rparr>"
  have g: "generic_page example_document"
    by (simp add: generic_page_def example_document_def cps_def)
  have m: "?e1 \<in> set (page_elements example_document)" "?e2 \<in> set (page_elements example_document)"
    "?e3 \<in> set (page_elements example_document)" "?e4 \<in> set (page_elements example_document)"
    by (simp_all add: page_elements_def example_document_def example_elements_def)
  have h: "\<not> is_heading ?e1" "\<not> is_heading ?e2" "\<not> is_heading ?e3" "\<not> is_heading ?e4"
    by (simp_all add: is_heading_def heading_names_def)
  have l: "10 \<le> length (clean_text (elem_text ?e1))" "10 \<le> length (clean_text (elem_text ?e2))"
    "10 \<le> length (clean_text (elem_text ?e3))" "10 \<le> length (clean_text (elem_text ?e4))"
    by (simp_all add: example_clean) (simp_all add: cps_def)
  have s: "\<not> 30 < length (cps ''short text!'')" "30 < length (cps ''A plain sentence with over thirty chars.'')"
    by (simp_all add: cps_def)
  have lw: "\<forall>s. str_in (cps ''meaning'') (ascii_lower (cps ''MEANING: '' @ s))"
    by (simp add: ascii_lower_meaning_tag)
  show ?thesis
    using rule_chain_precedence[OF g m(1) h(1) l(1), of ascii_lower]
      rule_chain_precedence[OF g m(2) h(2) l(2), of ascii_lower]
      rule_chain_precedence[OF g m(3) h(3) l(3), of ascii_lower]
      rule_chain_precedence[OF g m(4) h(4) l(4), of ascii_lower]
      lw s
    by (simp add: example_clean is_verse_example not_verse_example is_meaning_example)
qed

text \<open>
  Claim C5. On a page handled by the generic ruleset, no category list holds the same
  normalised text twice: each list is the list of the texts its rule selects, in document
  order, with only the first occurrence of each text kept. A text is appended to the
  current section's list only when it was inserted into its category list: an element
  that leaves the three category lists as they are leaves the sections as they are, and
  all the section entries together are, counted with repetitions, among the (tagged)
  entries of the category lists, so that no section holds a duplicate that a category
  list rejected.
\<close>

theorem category_lists_deduplicated:
  fixes lw :: "ustr \<Rightarrow> ustr" and d :: document
  defines "out \<equiv> extract_article_content lw d"
    and "texts \<equiv> classified_texts (page_elements d)"
  assumes gen: "generic_page d"
  shows "distinct (verses out) \<and> distinct (meanings out) \<and> distinct (paragraphs out)
       \<and> verses out = first_occurrences [t \<leftarrow> texts. is_verse devanagari_chars t]
       \<and> meanings out = first_occurrences [t \<leftarrow> texts. \<not> is_verse devanagari_chars t \<and> is_meaning lw t]
       \<and> paragraphs out = first_occurrences [t \<leftarrow> texts.
            \<not> is_verse devanagari_chars t \<and> \<not> is_meaning lw t \<and> 30 < length t]
       \<and> sections_within_categories out
       \<and> (\<forall>c cur e. \<not> is_heading e
            \<and> verses (fst (classify_element lw devanagari_chars (c, cur) e)) = verses c
            \<and> meanings (fst (classify_element lw devanagari_chars (c, cur) e)) = meanings c
            \<and> paragraphs (fst (classify_element lw devanagari_chars (c, cur) e)) = paragraphs c
            \<longrightarrow> sections (fst (classify_element lw devanagari_chars (c, cur) e)) = sections c)"
proof -
  let ?c = "fst (classify_elements lw (page_elements d))"
  have out: "out = set_full_text ?c" using gen by (simp add: out_def extract_generic)
  have w: "sections_within_categories out"
    using within_classify[of lw "page_elements d"]
    by (simp add: out sections_within_categories_def tagged_entries_def)
  show ?thesis
    using w step_sections_only_with_category
    by (simp add: out texts_def classify_verses classify_meanings classify_paragraphs)
qed

theorem category_lists_deduplicated_witness:
  "verses (extract_article_content ascii_lower example_document)
     = [cps ''om namah shivaya '' @ [2405]]
   \<and> distinct (verses (extract_article_content ascii_lower example_document))
   \<and> distinct (meanings (extract_article_content ascii_lower example_document))
   \<and> distinct (paragraphs (extract_article_content ascii_lower example_document))
   \<and> sections_within_categories (extract_article_content ascii_lower example_document)
   \<and> sections (fst (classify_element ascii_lower devanagari_chars
         (\<lparr>verses = [cps ''om namah shivaya '' @ [2405]], meanings = [], paragraphs = [],
           sections = [(cps ''Introduction'', [cps ''VERSE: om namah shivaya '' @ [2405]])],
           full_text = None\<rparr>, cps ''Introduction'')
         \<lparr>elem_name = ''div'', elem_text = cps ''om namah shivaya '' @ [2405, 10]\<rparr>))
       = [(cps ''Introduction'', [cps ''VERSE: om namah shivaya '' @ [2405]])]"
proof -
  define c where "c = \<lparr>verses = [cps ''om namah shivaya '' @ [2405]], meanings = [], paragraphs = [],
           sections = [(cps ''Introduction'', [cps ''VERSE: om namah shivaya '' @ [2405]])],
           full_text = None\<rparr>"
  define cur where "cur = cps ''Introduction''"
  define e where "e = \<lparr>elem_name = ''div'', elem_text = cps ''om namah shivaya '' @ [2405, 10]\<rparr>"
  define X where "X = extract_article_content ascii_lower example_document"
  define S where "S = classify_element ascii_lower devanagari_chars (c, cur) e"
  have g: "generic_page example_document"
    by (simp add: generic_page_def example_document_def cps_def)
  have pe: "page_elements example_document = example_elements"
    by (simp add: page_elements_def example_document_def)
  have nh: "\<not> is_heading e" by (simp add: e_def is_heading_def heading_names_def)
  have ct: "clean_text (elem_text e) = cps ''om namah shivaya '' @ [2405]"
    by (simp add: e_def example_clean)
  have "10 \<le> length (cps ''om namah shivaya '' @ [2405])" by (simp add: cps_def)
  then have sn: "seen e" using nh by (simp add: seen_def ct)
  have vc: "verses c = [cps ''om namah shivaya '' @ [2405]]" by (simp add: c_def)
  have v: "verses (fst S) = verses c"
    unfolding S_def using sn by (simp add: step_verses ct is_verse_example insert_new_def vc)
  have m: "meanings (fst S) = meanings c"
    unfolding S_def using sn by (simp add: step_meanings ct is_verse_example)
  have p: "paragraphs (fst S) = paragraphs c"
    unfolding S_def using sn by (simp add: step_paragraphs ct is_verse_example)
  have f: "first_occurrences [t \<leftarrow> classified_texts example_elements. is_verse devanagari_chars t]
      = [cps ''om namah shivaya '' @ [2405]]"
    by (simp add: classified_texts_example is_verse_example not_verse_example not_verse_example2
        first_occurrences_def)
  note T = category_lists_deduplicated[OF g, of ascii_lower, unfolded pe, folded X_def]
  have t1: "distinct (verses X)" and t2: "distinct (meanings X)" and t3: "distinct (paragraphs X)"
    and t4: "verses X = first_occurrences [t \<leftarrow> classified_texts example_elements. is_verse devanagari_chars t]"
    and t5: "sections_within_categories X"
    using T by simp_all
  have t6: "\<not> is_heading e \<and> verses (fst S) = verses c \<and> meanings (fst S) = meanings c
      \<and> paragraphs (fst S) = paragraphs c \<longrightarrow> sections (fst S) = sections c"
    unfolding S_def using T by simp
  have "sections (fst S) = sections c" using t6 nh v m p by simp
  then have s: "sections (fst S) = [(cps ''Introduction'', [cps ''VERSE: om namah shivaya '' @ [2405]])]"
    by (simp add: c_def)
  show ?thesis
    using t1 t2 t3 t4 t5 s f unfolding X_def S_def c_def cur_def e_def by simp
qed

text \<open>
  Claim C6, as stated: every heading element (levels 1 to 6) sets the current section and
  creates an empty segment list for it if it is new. The generic ruleset skips every
  element whose normalised text is shorter than 10 characters before it looks at the tag,
  so a heading such as \<open>Meaning\<close> changes nothing: the current section stays \<open>General\<close> and
  no list is created.
\<close>

theorem short_heading_counterexample:
  "is_heading \<lparr>elem_name = ''h2'', elem_text = cps ''Meaning''\<rparr>
   \<and> classify_element ascii_lower devanagari_chars (empty_content, cps ''General'')
        \<lparr>elem_name = ''h2'', elem_text = cps ''Meaning''\<rparr> = (empty_content, cps ''General'')
   \<and> snd (classify_element ascii_lower devanagari_chars (empty_content, cps ''General'')
        \<lparr>elem_name = ''h2'', elem_text = cps ''Meaning''\<rparr>) \<noteq> cps ''Meaning''"
proof -
  have "length (clean_text (cps ''Meaning'')) < 10" by (simp add: example_clean) (simp add: cps_def)
  then have "classify_element ascii_lower devanagari_chars (empty_content, cps ''General'')
        \<lparr>elem_name = ''h2'', elem_text = cps ''Meaning''\<rparr> = (empty_content, cps ''General'')"
    by (intro short_step) simp
  moreover have "cps ''General'' \<noteq> cps ''Meaning''" by (simp add: cps_def)
  ultimately show ?thesis by (simp add: is_heading_def heading_names_def)
qed

text \<open>
  Claim C6, amended. In the generic ruleset a heading element (levels 1 to 6) whose
  normalised text has at least 10 characters sets the current section to that text,
  creates an empty segment list for it if it is new (an existing list is kept), and is
  itself not classified: the verse, meaning and paragraph lists stay as they are. A
  heading whose normalised text is shorter than 10 characters is skipped and changes
  nothing. On a page without heading elements the section dictionary stays empty, while
  the three category lists are filled from the other elements.
\<close>

theorem heading_sets_section:
  fixes lw :: "ustr \<Rightarrow> ustr" and c :: content and cur :: ustr and e :: element and d :: document
  defines "t \<equiv> clean_text (elem_text e)"
    and "st' \<equiv> classify_element lw devanagari_chars (c, cur) e"
    and "out \<equiv> extract_article_content lw d"
    and "texts \<equiv> classified_texts (page_elements d)"
  shows "(is_heading e \<and> 10 \<le> length t \<longrightarrow>
            snd st' = t \<and> has_key (sections (fst st')) t
            \<and> sections (fst st') = (if has_key (sections c) t then sections c else sections c @ [(t, [])])
            \<and> verses (fst st') = verses c \<and> meanings (fst st') = meanings c
            \<and> paragraphs (fst st') = paragraphs c)
       \<and> (is_heading e \<and> length t < 10 \<longrightarrow> st' = (c, cur))
       \<and> (generic_page d \<and> (\<forall>x\<in>set (page_elements d). \<not> is_heading x) \<longrightarrow>
            sections out = []
            \<and> verses out = first_occurrences [x \<leftarrow> texts. is_verse devanagari_chars x]
            \<and> meanings out = first_occurrences [x \<leftarrow> texts. \<not> is_verse devanagari_chars x \<and> is_meaning lw x]
            \<and> paragraphs out = first_occurrences [x \<leftarrow> texts.
                 \<not> is_verse devanagari_chars x \<and> \<not> is_meaning lw x \<and> 30 < length x])"
proof -
  have a: "snd st' = t \<and> has_key (sections (fst st')) t
            \<and> sections (fst st') = (if has_key (sections c) t then sections c else sections c @ [(t, [])])
            \<and> verses (fst st') = verses c \<and> meanings (fst st') = meanings c
            \<and> paragraphs (fst st') = paragraphs c"
    if "is_heading e" "10 \<le> length t"
    using that heading_step[of e lw devanagari_chars c cur]
    by (simp add: t_def st'_def has_key_def)
  have b: "st' = (c, cur)" if "length t < 10"
    using that short_step[of e lw devanagari_chars c cur] by (simp add: t_def st'_def)
  have g: "sections out = []
            \<and> verses out = first_occurrences [x \<leftarrow> texts. is_verse devanagari_chars x]
            \<and> meanings out = first_occurrences [x \<leftarrow> texts. \<not> is_verse devanagari_chars x \<and> is_meaning lw x]
            \<and> paragraphs out = first_occurrences [x \<leftarrow> texts.
                 \<not> is_verse devanagari_chars x \<and> \<not> is_meaning lw x \<and> 30 < length x]"
    if "generic_page d" "\<forall>x\<in>set (page_elements d). \<not> is_heading x"
    using that
    by (simp add: out_def texts_def extract_generic sections_no_heading classify_verses
        classify_meanings classify_paragraphs)
  show ?thesis using a b g by blast
qed

theorem heading_sets_section_witness:
  "snd (classify_element ascii_lower devanagari_chars (empty_content, cps ''General'')
          \<lparr>elem_name = ''h2'', elem_text = cps ''Introduction''\<rparr>) = cps ''Introduction''
   \<and> sections (fst (classify_element ascii_lower devanagari_chars (empty_content, cps ''General'')
          \<lparr>elem_name = ''h2'', elem_text = cps ''Introduction''\<rparr>)) = [(cps ''Introduction'', [])]
   \<and> classify_element ascii_lower devanagari_chars (empty_content, cps ''General'')
          \<lparr>elem_name = ''h3'', elem_text = cps ''Meaning''\<rparr> = (empty_content, cps ''General'')
   \<and> sections (extract_article_content ascii_lower plain_document) = []
   \<and> paragraphs (extract_article_content ascii_lower plain_document)
        = [cps ''A plain sentence with over thirty chars.'']"
proof -
  let ?h = "\<lparr>elem_name = ''h2'', elem_text = cps ''Introduction''\<rparr>"
  let ?s = "\<lparr>elem_name = ''h3'', elem_text = cps ''Meaning''\<rparr>"
  have h: "is_heading ?h" "is_heading ?s" by (simp_all add: is_heading_def heading_names_def)
  have l: "10 \<le> length (cps ''Introduction'')" "length (cps ''Meaning'') < 10"
    by (simp_all add: cps_def)
  have k: "\<not> has_key (sections empty_content) (cps ''Introduction'')"
    by (simp add: has_key_def empty_content_def)
  have e: "sections empty_content = []" by (simp add: empty_content_def)
  have p: "first_occurrences [cps ''A plain sentence with over thirty chars.'']
      = [cps ''A plain sentence with over thirty chars.'']"
    by (simp add: first_occurrences_def)
  note T1 = heading_sets_section[where e = ?h and c = empty_content and lw = ascii_lower
      and cur = "cps ''General''" and d = plain_document]
  note T2 = heading_sets_section[where e = ?s and c = empty_content and lw = ascii_lower
      and cur = "cps ''General''" and d = plain_document]
  have a: "snd (classify_element ascii_lower devanagari_chars (empty_content, cps ''General'') ?h)
        = cps ''Introduction''
      \<and> sections (fst (classify_element ascii_lower devanagari_chars (empty_content, cps ''General'') ?h))
        = [(cps ''Introduction'', [])]"
    using T1 h(1) l(1) k e by (simp add: example_clean)
  have b: "classify_element ascii_lower devanagari_chars (empty_content, cps ''General'') ?s
        = (empty_content, cps ''General'')"
    using T2 h(2) l(2) by (simp add: example_clean)
  have c: "sections (extract_article_content ascii_lower plain_document) = []
      \<and> paragraphs (extract_article_content ascii_lower plain_document)
        = [cps ''A plain sentence with over thirty chars.'']"
    using T1 plain_generic plain_no_heading p
    by (simp add: plain_page_elements plain_lists)
  show ?thesis using a b c by simp
qed



text \<open>
  Claim C8. In every record that \<open>scrape_example\<close> returns, \<open>content_preview\<close> is the first
  1000 characters of \<open>full_text\<close> (the empty string when \<open>full_text\<close> is not set), followed
  by \<open>...\<close> if and only if \<open>full_text\<close> has more than 1000 characters: a text of exactly
  1000 characters is its own preview, and a text of 1001 characters gives 1000 characters
  and the marker, 1003 in all. \<open>num_verses\<close>, \<open>num_paragraphs\<close> and \<open>num_sections\<close> are the
  lengths of the classifier's verse list, paragraph list and section dictionary for the
  fetched document.
\<close>

theorem report_preview_and_counts:
  fixes lw :: "ustr \<Rightarrow> ustr" and self :: scraper and u :: ustr
  shows "\<forall>pd\<in>set (scrape_example lw self u).
     (\<exists>d. fst (get_page lw self 3) = Inr (Some d) \<and> extracted pd = extract_article_content lw d)
     \<and> content_preview pd = take 1000 (full_text_or_empty (extracted pd))
          @ (if 1000 < length (full_text_or_empty (extracted pd)) then cps ''...'' else [])
     \<and> (length (full_text_or_empty (extracted pd)) = 1000 \<longrightarrow>
          content_preview pd = full_text_or_empty (extracted pd))
     \<and> (length (full_text_or_empty (extracted pd)) = 1001 \<longrightarrow>
          content_preview pd = take 1000 (full_text_or_empty (extracted pd)) @ cps ''...''
          \<and> length (content_preview pd) = 1003)
     \<and> num_verses pd = length (verses (extracted pd))
     \<and> num_paragraphs pd = length (paragraphs (extracted pd))
     \<and> num_sections pd = length (sections (extracted pd))"
proof
  fix pd
  assume "pd \<in> set (scrape_example lw self u)"
  then obtain d where d: "fst (get_page lw self 3) = Inr (Some d)"
    and pd: "pd = build_page_data lw u d"
    using scrape_example_cases by blast
  let ?t = "full_text_or_empty (extract_article_content lw d)"
  have a: "\<exists>d. fst (get_page lw self 3) = Inr (Some d) \<and> extracted pd = extract_article_content lw d"
    using d by (auto simp: pd build_page_data_fields)
  have b: "content_preview pd = take 1000 ?t @ (if 1000 < length ?t then cps ''...'' else [])"
    by (simp add: pd build_page_data_fields preview_def)
  have c: "content_preview pd = ?t" if "length ?t = 1000"
    using that unfolding b by simp
  have e: "content_preview pd = take 1000 ?t @ cps ''...'' \<and> length (content_preview pd) = 1003"
    if "length ?t = 1001"
    using that unfolding b by (simp add: length_dots)
  have ex: "extracted pd = extract_article_content lw d" by (simp add: pd build_page_data_fields)
  have n: "num_verses pd = length (verses (extracted pd))"
    "num_paragraphs pd = length (paragraphs (extracted pd))"
    "num_sections pd = length (sections (extracted pd))"
    by (simp_all add: pd build_page_data_fields)
  show "(\<exists>d. fst (get_page lw self 3) = Inr (Some d) \<and> extracted pd = extract_article_content lw d)
     \<and> content_preview pd = take 1000 (full_text_or_empty (extracted pd))
          @ (if 1000 < length (full_text_or_empty (extracted pd)) then cps ''...'' else [])
     \<and> (length (full_text_or_empty (extracted pd)) = 1000 \<longrightarrow>
          content_preview pd = full_text_or_empty (extracted pd))
     \<and> (length (full_text_or_empty (extracted pd)) = 1001 \<longrightarrow>
          content_preview pd = take 1000 (full_text_or_empty (extracted pd)) @ cps ''...''
          \<and> length (content_preview pd) = 1003)
     \<and> num_verses pd = length (verses (extracted pd))
     \<and> num_paragraphs pd = length (paragraphs (extracted pd))
     \<and> num_sections pd = length (sections (extracted pd))"
    unfolding ex using a b c e n unfolding ex by (intro conjI impI) (simp_all add: length_dots)
qed

theorem report_preview_and_counts_witness:
  "content_preview (hd (scrape_example ascii_lower (long_scraper 991) []))
     = cps ''VERSES:'' @ [10, 10] @ replicate 991 97
   \<and> content_preview (hd (scrape_example ascii_lower (long_scraper 992) []))
     = cps ''VERSES:'' @ [10, 10] @ replicate 991 97 @ cps ''...''
   \<and> num_verses (hd (scrape_example ascii_lower (long_scraper 991) [])) = 1
   \<and> num_paragraphs (hd (scrape_example ascii_lower (long_scraper 991) [])) = 0
   \<and> num_sections (hd (scrape_example ascii_lower (long_scraper 991) [])) = 0"
proof -
  have s: "scrape_example ascii_lower (long_scraper n) []
      = [build_page_data ascii_lower [] (long_document n)]" for n
    by (simp add: scrape_example_def long_get_page)
  have ft: "full_text_or_empty (extracted (build_page_data ascii_lower [] (long_document n)))
      = cps ''VERSES:'' @ [10, 10] @ replicate n 97" if "50 < n" for n
    using long_extract(4)[OF that] by (simp add: build_page_data_fields full_text_or_empty_def)
  have l: "length (cps ''VERSES:'') = 7"
    by (simp add: cps_def)
  have tk: "take 1000 (cps ''VERSES:'' @ 10 # 10 # replicate 992 97)
      = cps ''VERSES:'' @ 10 # 10 # replicate 991 97"
    by (simp add: cps_def)
  let ?a = "build_page_data ascii_lower [] (long_document 991)"
  let ?b = "build_page_data ascii_lower [] (long_document 992)"
  have ma: "?a \<in> set (scrape_example ascii_lower (long_scraper 991) [])" by (simp add: s)
  have mb: "?b \<in> set (scrape_example ascii_lower (long_scraper 992) [])" by (simp add: s)
  note A = report_preview_and_counts[where lw = ascii_lower and self = "long_scraper 991"
      and u = "[]", THEN bspec, OF ma]
  note B = report_preview_and_counts[where lw = ascii_lower and self = "long_scraper 992"
      and u = "[]", THEN bspec, OF mb]
  have la: "length (full_text_or_empty (extracted ?a)) = 1000" by (simp add: ft l)
  have lb: "length (full_text_or_empty (extracted ?b)) = 1001" by (simp add: ft l)
  have a: "content_preview ?a = cps ''VERSES:'' @ [10, 10] @ replicate 991 97"
    using A la by (simp add: ft)
  have "content_preview ?b = take 1000 (full_text_or_empty (extracted ?b)) @ cps ''...''"
    using B lb by blast
  moreover have "full_text_or_empty (extracted ?b) = cps ''VERSES:'' @ 10 # 10 # replicate 992 97"
    using ft[of 992] by simp
  ultimately have "content_preview ?b
      = take 1000 (cps ''VERSES:'' @ 10 # 10 # replicate 992 97) @ cps ''...''"
    by (simp only:)
  then have b: "content_preview ?b = cps ''VERSES:'' @ [10, 10] @ replicate 991 97 @ cps ''...''"
    unfolding tk by simp
  have n: "num_verses ?a = 1" "num_paragraphs ?a = 0" "num_sections ?a = 0"
    using A long_extract(1,2,3)[of 991] by (simp_all add: build_page_data_fields)
  show ?thesis using a b n by (simp add: s)
qed

text \<open>
  Claim C9, as stated: when an error is raised while the specialised extractor walks the
  document, the extractor returns the content record with all its fields empty. The
  dictionary is filled in place and \<open>full_text\<close> is set at the end of the \<open>try\<close> block: on the
  page whose first element is a verse and whose second element raises, the result holds
  the verse, and it has no \<open>full_text\<close>.
\<close>

theorem shiva_error_counterexample:
  "verses (extract_article_content ascii_lower faulty_document) = [cps ''om namah shivaya '' @ [2405]]
   \<and> verses (extract_article_content ascii_lower faulty_document) \<noteq> []
   \<and> full_text (extract_article_content ascii_lower faulty_document) = None"
proof -
  have "extract_article_content ascii_lower faulty_document
      = extract_shiva_tandav_content ascii_lower faulty_document"
    using faulty_not_generic by (simp add: extract_article_content_def generic_page_def)
  also have "\<dots> = fst (walk ascii_lower shiva_chars shiva_start
      [\<lparr>elem_name = ''p'', elem_text = cps '' om namah  shivaya '' @ [2405]\<rparr>])"
    by (simp only: extract_shiva_tandav_content_def faulty_elements shiva_walk_raise shiva_start_def
        prod.case option.case)
  finally have eq: "extract_article_content ascii_lower faulty_document
      = fst (walk ascii_lower shiva_chars shiva_start
          [\<lparr>elem_name = ''p'', elem_text = cps '' om namah  shivaya '' @ [2405]\<rparr>])" .
  have v: "verses (extract_article_content ascii_lower faulty_document)
      = [cps ''om namah shivaya '' @ [2405]]"
    unfolding eq by (rule faulty_verses)
  have "full_text (fst shiva_start) = None" by (simp add: shiva_start_def empty_content_def)
  then have f: "full_text (extract_article_content ascii_lower faulty_document) = None"
    unfolding eq walk_full_text .
  show ?thesis using v f by simp
qed

text \<open>
  Claim C9, amended. When an error is raised while the specialised extractor walks the
  document, no exception leaves the extractor: it returns the content record as it stands
  when the error is raised. If the first walk raises at an element, the record holds what
  the elements before it have given (it is the empty record if the first element raises);
  if the second walk raises, it holds the result of the first walk and what the second has
  added before the error. In both cases \<open>full_text\<close> is not set, which the report builder
  reads as the empty string.
\<close>

theorem shiva_error_returns_collected:
  fixes lw :: "ustr \<Rightarrow> ustr" and d :: document and c :: content
  shows "(article_elements d = map Returns pre @ Raises e # post \<longrightarrow>
            extract_shiva_tandav_content lw d = fst (walk lw shiva_chars shiva_start pre)
            \<and> full_text (extract_shiva_tandav_content lw d) = None)
       \<and> (article_elements d = Raises e # post \<longrightarrow>
            extract_shiva_tandav_content lw d = empty_content)
       \<and> (article_elements d = map Returns es
            \<and> verses (fst (walk lw shiva_chars shiva_start es)) = []
            \<and> article_all_tags d = map Returns pre @ Raises e # post \<longrightarrow>
            extract_shiva_tandav_content lw d
              = fst (aggressive_pass (walk lw shiva_chars shiva_start es) pre)
            \<and> full_text (extract_shiva_tandav_content lw d) = None)
       \<and> (full_text c = None \<longrightarrow> preview c = [])"
proof -
  have ft0: "full_text (fst shiva_start) = None"
    by (simp add: shiva_start_def empty_content_def)
  have a: "extract_shiva_tandav_content lw d = fst (walk lw shiva_chars shiva_start pre)"
    if "article_elements d = map Returns pre @ Raises e # post"
    using that
    by (simp add: extract_shiva_tandav_content_def shiva_walk_raise shiva_start_def)
  have a': "full_text (fst (walk lw shiva_chars shiva_start pre)) = None"
    by (simp add: walk_full_text ft0)
  have b: "extract_shiva_tandav_content lw d = empty_content"
    if "article_elements d = Raises e # post"
    using that by (simp add: extract_shiva_tandav_content_def)
  have c: "extract_shiva_tandav_content lw d
              = fst (aggressive_pass (walk lw shiva_chars shiva_start es) pre)"
    if "article_elements d = map Returns es"
      "verses (fst (walk lw shiva_chars shiva_start es)) = []"
      "article_all_tags d = map Returns pre @ Raises e # post"
    using that
    by (simp add: extract_shiva_tandav_content_def shiva_walk_returns aggressive_walk_raise
        shiva_start_def)
  have c': "full_text (fst (aggressive_pass (walk lw shiva_chars shiva_start es) pre)) = None"
    by (simp add: aggressive_pass_full_text walk_full_text ft0)
  show ?thesis using a a' b c c' preview_no_full_text by auto
qed

theorem shiva_error_returns_collected_witness:
  "extract_shiva_tandav_content ascii_lower faulty_document
     = fst (walk ascii_lower shiva_chars shiva_start
         [\<lparr>elem_name = ''p'', elem_text = cps '' om namah  shivaya '' @ [2405]\<rparr>])
   \<and> full_text (extract_shiva_tandav_content ascii_lower faulty_document) = None
   \<and> preview (extract_shiva_tandav_content ascii_lower faulty_document) = []"
proof -
  note T = shiva_error_returns_collected[where lw = ascii_lower and d = faulty_document
      and pre = "[\<lparr>elem_name = ''p'', elem_text = cps '' om namah  shivaya '' @ [2405]\<rparr>]"
      and e = OtherException and post = "[]"
      and c = "extract_shiva_tandav_content ascii_lower faulty_document"]
  have a: "extract_shiva_tandav_content ascii_lower faulty_document
     = fst (walk ascii_lower shiva_chars shiva_start
         [\<lparr>elem_name = ''p'', elem_text = cps '' om namah  shivaya '' @ [2405]\<rparr>])
    \<and> full_text (extract_shiva_tandav_content ascii_lower faulty_document) = None"
    using T faulty_elements by blast
  then have "preview (extract_shiva_tandav_content ascii_lower faulty_document) = []"
    using T by blast
  then show ?thesis using a by blast
qed

text \<open>
  Claim C10. Text normalisation is idempotent and keeps the empty string empty:
  \<open>clean_text(clean_text(s)) = clean_text(s)\<close> for every string, \<open>clean_text('') = ''\<close>, and
  so every segment that \<open>extract_article_content\<close> stores in a category list or in a
  section list, on the generic path and on the specialised one, is a fixed point of
  \<open>clean_text\<close>.
\<close>

theorem clean_text_idempotent:
  "clean_text (clean_text s) = clean_text s \<and> clean_text [] = []
   \<and> (\<forall>x\<in>set (segments (extract_article_content lw d)). clean_text x = x)"
  using all_clean_extract[of lw d]
  by (simp add: clean_text_eq split_join split_words split_Nil all_clean_def)

theorem clean_text_idempotent_witness:
  "cps ''om namah shivaya '' @ [2405]
     \<in> set (segments (extract_article_content ascii_lower example_document))
   \<and> clean_text (cps ''om namah shivaya '' @ [2405]) = cps ''om namah shivaya '' @ [2405]
   \<and> clean_text (clean_text (cps '' a  b '')) = clean_text (cps '' a  b '')"
proof -
  have sig: "\<not> str_in (cps ''shiv-tandav-stotram'') (doc_str example_document)"
    by (simp add: example_document_def cps_def)
  have "cps ''om namah shivaya '' @ [2405]
          \<in> set (verses (fst (classify_elements ascii_lower example_elements)))"
    by (simp add: classify_verses classified_texts_example is_verse_example)
  then have mem: "cps ''om namah shivaya '' @ [2405]
      \<in> set (segments (extract_article_content ascii_lower example_document))"
    using sig
    by (simp add: extract_article_content_def segments_def set_full_text_def
        example_document_def)
  show ?thesis
    using mem clean_text_idempotent[of "cps '' a  b ''" ascii_lower example_document]
    by blast
qed

end
